theory Spec2Isabelle
  imports Complex_Main
begin

section \<open>The sine-line model of docs/example-sine-line.ipynb\<close>

text \<open>
  The notebook defines three Python functions over numpy arrays of float64:
  \<^verbatim>\<open>sine_model\<close>, \<open>prior_transform\<close> and \<open>log_likelihood\<close>, and hands the last two to the
  sampler. A Python exception is the error value of its name, and a result that numpy
  reports as \<open>inf\<close> or \<open>nan\<close> is the error value \<open>NonFinite\<close>. \<open>sine_model\<close> and
  \<open>log_likelihood\<close> are modelled in float64, with rounding and overflow.
  \<open>prior_transform\<close> is modelled over the reals, \<open>10 ** x\<close> as \<open>10 powr x\<close>: what is
  proved of it is its effect on the heap, that it raises nothing, and bounds that
  rounding to nearest keeps.
\<close>

datatype error = IndexError | ValueError | NonFinite

subsection \<open>Arrays on a heap\<close>

text \<open>
  \<open>prior_transform\<close> copies its argument and assigns to the copy by index, so arrays are
  objects with identity: the heap is the list of all arrays allocated so far and a reference
  is a position in it. Allocation appends, so a fresh reference never aliases an old one.
\<close>

type_synonym ndarray = "real list"
type_synonym heap = "ndarray list"
type_synonym ref = nat

definition ndarray_copy :: "heap \<Rightarrow> ref \<Rightarrow> ref \<times> heap" where
  \<comment> \<open>\<open>a.copy()\<close>: a new array with the contents of \<open>a\<close>\<close>
  "ndarray_copy h a = (length h, h @ [h ! a])"

definition getitem :: "heap \<Rightarrow> ref \<Rightarrow> nat \<Rightarrow> error + real" where
  \<comment> \<open>\<open>a[i]\<close> for a literal index \<open>i \<ge> 0\<close>: IndexError out of range\<close>
  "getitem h a i = (if i < length (h ! a) then Inr (h ! a ! i) else Inl IndexError)"

definition setitem :: "heap \<Rightarrow> ref \<Rightarrow> nat \<Rightarrow> real \<Rightarrow> error + heap" where
  \<comment> \<open>\<open>a[i] = v\<close> for a literal index \<open>i \<ge> 0\<close>: IndexError out of range\<close>
  "setitem h a i v =
     (if i < length (h ! a) then Inr (h[a := (h ! a)[i := v]]) else Inl IndexError)"

subsection \<open>prior\_transform\<close>

text \<open>
  \<^verbatim>\<open>
  def prior_transform(cube):
      params = cube.copy()
      params[0] = cube[0] * 20 - 10
      params[1] = 10**(cube[1] * 4 - 2)
      params[2] = 10**(cube[2] * 2)
      params[3] = cube[3]
      return params
  \<close>
  One statement of the source is one \<open>assign\<close>: read \<open>cube[i]\<close>, compute, write
  \<open>params[i]\<close>. An exception leaves the heap as the statements before it made it.
\<close>

definition assign :: "ref \<Rightarrow> ref \<Rightarrow> nat \<Rightarrow> (real \<Rightarrow> real) \<Rightarrow> heap \<Rightarrow> error + heap" where
  \<comment> \<open>\<open>params[i] = f(cube[i])\<close>\<close>
  "assign params cube i f h =
     (case getitem h cube i of
        Inl e \<Rightarrow> Inl e
      | Inr c \<Rightarrow> setitem h params i (f c))"

definition prior_transform :: "heap \<Rightarrow> ref \<Rightarrow> (error + ref) \<times> heap" where
  "prior_transform h cube =
     (let (params, h0) = ndarray_copy h cube in
      case assign params cube 0 (\<lambda>c. c * 20 - 10) h0 of
        Inl e \<Rightarrow> (Inl e, h0)
      | Inr h1 \<Rightarrow>
      case assign params cube 1 (\<lambda>c. 10 powr (c * 4 - 2)) h1 of
        Inl e \<Rightarrow> (Inl e, h1)
      | Inr h2 \<Rightarrow>
      case assign params cube 2 (\<lambda>c. 10 powr (c * 2)) h2 of
        Inl e \<Rightarrow> (Inl e, h2)
      | Inr h3 \<Rightarrow>
      case assign params cube 3 (\<lambda>c. c) h3 of
        Inl e \<Rightarrow> (Inl e, h3)
      | Inr h4 \<Rightarrow> (Inr params, h4))"

definition in_unit_cube :: "nat \<Rightarrow> ndarray \<Rightarrow> bool" where
  \<comment> \<open>the array is a point of \<open>[0,1]^D\<close>\<close>
  "in_unit_cube D xs = (length xs = D \<and> list_all (\<lambda>x. 0 \<le> x \<and> x \<le> 1) xs)"

subsection \<open>float64 arithmetic\<close>

text \<open>
  \<open>sine_model\<close> and \<open>log_likelihood\<close> compute in IEEE binary64. A finite double is modelled
  by the real number it denotes. An operation returns the exact result rounded to the
  nearest double, ties to even (\<open>rnd\<close>), and returns no value when numpy's result is not
  finite: when the rounded result is beyond the largest double (overflow to \<open>inf\<close>) or the
  operation is a division by zero (\<open>inf\<close> or \<open>nan\<close>). An \<open>inf\<close> or \<open>nan\<close> never turns finite
  again in these two functions, so the first operation without a value makes the whole
  result \<open>NonFinite\<close>.

  \<open>binade x\<close> is the exponent of the binade of \<open>x\<close>, not below the least normal exponent
  - 1022 (below it the doubles are subnormal and equally spaced); \<open>ulp x\<close> is the spacing
  of the doubles there, with 53 significant bits.
\<close>

definition binade :: "real \<Rightarrow> int" where
  "binade x = (if x = 0 then - 1022 else max \<lfloor>log 2 \<bar>x\<bar>\<rfloor> (- 1022))"

definition ulp :: "real \<Rightarrow> real" where
  "ulp x = 2 powr (real_of_int (binade x) - 52)"

definition rnd :: "real \<Rightarrow> real" where
  \<comment> \<open>round to nearest, ties to even\<close>
  "rnd x =
     (let q = x / ulp x; n = \<lfloor>q\<rfloor>
      in (if q - of_int n < 1 / 2 \<or> (q - of_int n = 1 / 2 \<and> even n)
          then of_int n else of_int (n + 1)) * ulp x)"

definition max_float :: real where
  \<comment> \<open>the largest finite double, \<open>(2 - 2^-52) * 2^1023\<close>\<close>
  "max_float = (2 ^ 53 - 1) * 2 ^ 971"

definition fl :: "real \<Rightarrow> real option" where
  "fl x = (if \<bar>rnd x\<bar> \<le> max_float then Some (rnd x) else None)"

definition fadd :: "real \<Rightarrow> real \<Rightarrow> real option" where
  "fadd x y = fl (x + y)"

definition fsub :: "real \<Rightarrow> real \<Rightarrow> real option" where
  "fsub x y = fl (x - y)"

definition fmul :: "real \<Rightarrow> real \<Rightarrow> real option" where
  "fmul x y = fl (x * y)"

definition fdiv :: "real \<Rightarrow> real \<Rightarrow> real option" where
  "fdiv x y = (if y = 0 then None else fl (x / y))"

definition fsin :: "real \<Rightarrow> real option" where
  \<comment> \<open>\<open>numpy.sin\<close>, taken as correctly rounded; on a finite argument it is finite\<close>
  "fsin x = fl (sin x)"

definition float_pi :: real where
  \<comment> \<open>\<open>numpy.pi\<close>, the double nearest to \<open>pi\<close>\<close>
  "float_pi = rnd pi"

definition and_then :: "error + 'a \<Rightarrow> ('a \<Rightarrow> error + 'b) \<Rightarrow> error + 'b" where
  "and_then r f = (case r of Inl e \<Rightarrow> Inl e | Inr v \<Rightarrow> f v)"

definition elementwise :: "('a \<Rightarrow> real option) \<Rightarrow> 'a list \<Rightarrow> error + ndarray" where
  \<comment> \<open>a numpy operation applied to each element of an array\<close>
  "elementwise f xs = (case those (map f xs) of None \<Rightarrow> Inl NonFinite | Some ys \<Rightarrow> Inr ys)"

subsection \<open>sine\_model\<close>

text \<open>
  \<^verbatim>\<open>
  def sine_model(t, B, A, P, t0):
      return A * sin((t / P + t0) * 2 * pi) + B
  \<close>
  \<open>t\<close> is an array (the observation times, or the plotting grid) and the other arguments
  are scalars. numpy evaluates the expression one array operation after the other, in
  Python's order: \<open>t / P\<close>, \<open>+ t0\<close>, \<open>* 2\<close>, \<open>* pi\<close>, \<open>sin\<close>, \<open>A *\<close>, \<open>+ B\<close>.
\<close>

definition true_divide :: "ndarray \<Rightarrow> real \<Rightarrow> error + ndarray" where
  \<comment> \<open>the array operation \<open>t / P\<close>\<close>
  "true_divide t P = elementwise (\<lambda>x. fdiv x P) t"

definition sine_model :: "ndarray \<Rightarrow> real \<Rightarrow> real \<Rightarrow> real \<Rightarrow> real \<Rightarrow> error + ndarray" where
  "sine_model t B A P t0 =
     and_then (true_divide t P) (\<lambda>d.
     and_then (elementwise (\<lambda>x. fadd x t0) d) (\<lambda>a.
     and_then (elementwise (\<lambda>x. fmul x 2) a) (\<lambda>b.
     and_then (elementwise (\<lambda>x. fmul x float_pi) b) (\<lambda>c.
     and_then (elementwise fsin c) (\<lambda>s.
     and_then (elementwise (\<lambda>x. fmul A x) s) (\<lambda>g.
     elementwise (\<lambda>x. fadd x B) g))))))"

definition sine_point :: "real \<Rightarrow> real \<Rightarrow> real \<Rightarrow> real \<Rightarrow> real \<Rightarrow> real option" where
  \<comment> \<open>the same seven operations at one element \<open>x\<close> of \<open>t\<close>\<close>
  "sine_point B A P t0 x =
     Option.bind (fdiv x P) (\<lambda>d.
     Option.bind (fadd d t0) (\<lambda>a.
     Option.bind (fmul a 2) (\<lambda>b.
     Option.bind (fmul b float_pi) (\<lambda>c.
     Option.bind (fsin c) (\<lambda>s.
     Option.bind (fmul A s) (\<lambda>g.
     fadd g B))))))"

definition sine_formula :: "real \<Rightarrow> real \<Rightarrow> real \<Rightarrow> real \<Rightarrow> real \<Rightarrow> real" where
  \<comment> \<open>the notebook's formula \<open>y = A sin(2 pi (t / P + t_0)) + B\<close>, over the reals\<close>
  "sine_formula B A P t0 x = A * sin (2 * pi * (x / P + t0)) + B"


definition wrapped_params :: "bool list" where
  \<comment> \<open>the mask given to \<open>ReactiveNestedSampler\<close>\<close>
  "wrapped_params = [False, False, False, True]"

definition in_prior_range :: "real \<Rightarrow> real \<Rightarrow> real \<Rightarrow> real \<Rightarrow> bool" where
  \<comment> \<open>the ranges of the four components of \<open>prior_transform\<close> on the unit cube\<close>
  "in_prior_range B A P t0 =
     (- 10 \<le> B \<and> B \<le> 10 \<and> 1 / 100 \<le> A \<and> A \<le> 100 \<and> 1 \<le> P \<and> P \<le> 100 \<and>
      0 \<le> t0 \<and> t0 \<le> 1)"

definition observation_times :: "ndarray \<Rightarrow> bool" where
  \<comment> \<open>times as the notebook builds them: \<open>np.random.uniform(0, 5, size=n_data)\<close> and
      \<open>np.linspace(0, 5, 400)\<close>\<close>
  "observation_times t = list_all (\<lambda>x. 0 \<le> x \<and> x \<le> 5) t"

definition agree_within :: "real \<Rightarrow> error + ndarray \<Rightarrow> error + ndarray \<Rightarrow> bool" where
  \<comment> \<open>both results are arrays, of one length, and differ by at most \<open>tol\<close> at each position\<close>
  "agree_within tol r1 r2 =
     (case (r1, r2) of
        (Inr xs, Inr ys) \<Rightarrow> list_all2 (\<lambda>x y. \<bar>x - y\<bar> \<le> tol) xs ys
      | _ \<Rightarrow> False)"

subsection \<open>log\_likelihood\<close>

definition yerr :: real where
  "yerr = 1.0"

definition subtract :: "ndarray \<Rightarrow> ndarray \<Rightarrow> error + ndarray" where
  \<comment> \<open>\<open>a - b\<close> on one-dimensional arrays, with numpy's broadcasting of a length-1 array\<close>
  "subtract a b =
     (if length a = length b then elementwise (\<lambda>(x, y). fsub x y) (zip a b)
      else if length a = 1 then elementwise (\<lambda>y. fsub (hd a) y) b
      else if length b = 1 then elementwise (\<lambda>x. fsub x (hd b)) a
      else Inl ValueError)"

text \<open>
  \<open>.sum()\<close> adds the elements in an order numpy chooses (pairwise, in blocks, by array
  size and platform), and each addition rounds. The order is not in the sources, so it is
  a parameter: a tree whose leaves are the positions of the array, each once
  (\<open>covers\<close>). The sum of the empty array is 0.
\<close>

datatype sum_order = Item nat | Plus sum_order sum_order

fun items :: "sum_order \<Rightarrow> nat list" where
  "items (Item i) = [i]"
| "items (Plus l r) = items l @ items r"

definition covers :: "sum_order \<Rightarrow> nat \<Rightarrow> bool" where
  "covers ord n = (sort (items ord) = [0..<n])"

fun sum_in_order :: "sum_order \<Rightarrow> ndarray \<Rightarrow> real option" where
  "sum_in_order (Item i) xs = Some (xs ! i)"
| "sum_in_order (Plus l r) xs =
     Option.bind (sum_in_order l xs) (\<lambda>a.
     Option.bind (sum_in_order r xs) (\<lambda>b. fadd a b))"

definition ndarray_sum :: "sum_order \<Rightarrow> ndarray \<Rightarrow> error + real" where
  "ndarray_sum ord xs =
     (if xs = [] then Inr 0
      else case sum_in_order ord xs of None \<Rightarrow> Inl NonFinite | Some s \<Rightarrow> Inr s)"

text \<open>
  \<^verbatim>\<open>
  def log_likelihood(params):
      B, A, P, t0 = params
      y_model = sine_model(t, A=A, B=B, P=P, t0=t0)
      loglike = -0.5 * (((y_model - y) / yerr)**2).sum()
      return loglike
  \<close>
  \<open>t\<close> and \<open>y\<close> are the notebook's global observation arrays. They are drawn from numpy's
  random generator, so they are parameters here. Unpacking an array whose length is not 4
  raises ValueError. \<open>**2\<close> on a float array is numpy's \<open>square\<close>, the product of an element
  with itself.
\<close>

definition log_likelihood :: "ndarray \<Rightarrow> ndarray \<Rightarrow> sum_order \<Rightarrow> ndarray \<Rightarrow> error + real" where
  "log_likelihood t y ord params =
     (case params of
        [B, A, P, t0] \<Rightarrow>
          and_then (sine_model t B A P t0) (\<lambda>y_model.
          and_then (subtract y_model y) (\<lambda>d.
          and_then (elementwise (\<lambda>x. fdiv x yerr) d) (\<lambda>r.
          and_then (elementwise (\<lambda>x. fmul x x) r) (\<lambda>sq.
          and_then (ndarray_sum ord sq) (\<lambda>s.
          case fmul (- 0.5) s of None \<Rightarrow> Inl NonFinite | Some v \<Rightarrow> Inr v)))))
      | _ \<Rightarrow> Inl ValueError)"

section \<open>The sampler, modelled from the specification\<close>

text \<open>
  The notebook creates a \<open>ReactiveNestedSampler\<close> and calls its \<open>run\<close> method. Their code is
  not among the sources: only these two calls are. What the properties below need of the
  sampler is therefore taken from the specification (sections 3, 4.4, 6 and 7): the run
  configuration and its validation, the run state, and the transitions of the
  sampler/integrator state machine. The accumulators \<open>log_evidence\<close> and
  \<open>log_evidence_variance\<close> of the specification's run state are left out: the
  specification does not fix how they are computed, and nothing below reads them. The
  count \<open>n_likelihood_calls\<close> is read from the environment of a run.
\<close>

subsection \<open>Run configuration\<close>

text \<open>
  Modelled from the spec: a tolerance is an f64 that may be \<open>+infinity\<close> (section 6), so it
  is a real or one of the three non-finite values; the errors are the taxonomy of section 7.
\<close>

datatype tolerance = Tol real | PosInf | NegInf | NotANumber

datatype sampler_error =
  InfeasibleEvaluation | RegionDegenerate | ProposalStuck | ConfigurationError

text \<open>
  Modelled from the spec: the run configuration of section 6,
  \<open>{min_num_live_points: u32, dKL/dlogZ: f64 (tolerance, may be +infinity), min_ess: u32,
  max_iters: optional u64, max_calls: optional u64}\<close>. The specification has one tolerance
  and calls it \<open>dKL/dlogZ\<close>; the notebook passes it under the keyword \<open>dKL\<close>.
\<close>

record run_config =
  min_num_live_points :: nat
  dlogZ :: tolerance
  min_ess :: nat
  max_iters :: "nat option"
  max_calls :: "nat option"


definition notebook_config :: run_config where
  \<comment> \<open>\<open>sampler.run(min_num_live_points=400, dKL=np.inf, min_ess=100)\<close>\<close>
  "notebook_config =
     \<lparr>min_num_live_points = 400, dlogZ = PosInf, min_ess = 100,
      max_iters = None, max_calls = None\<rparr>"

subsection \<open>Run state\<close>

text \<open>
  Modelled from the spec: the data model of section 3. A live point has unit coordinates,
  physical coordinates and a log-likelihood; a dead point is a live point tagged with the
  log prior volume at its removal and with its stratum, the size of the live set it was
  removed from. The live set is kept as a list, in insertion order. The phases are the
  states of the state machine of section 4.4.
\<close>

record live_point =
  unit_coords :: "real list"
  physical_coords :: "real list"
  point_log_likelihood :: real

record dead_point =
  dead :: live_point
  dead_log_volume :: real
  stratum :: nat

datatype phase = INITIALIZING | SAMPLING | REACTIVE_EXPAND | CONVERGED | STOPPED | FAILED

record run_state =
  phase :: phase
  dead_points :: "dead_point list"
  live_points :: "live_point list"
  log_volume_estimate :: real
  iteration :: nat

definition init_state :: run_state where
  \<comment> \<open>Modelled from the spec: a run starts in \<open>INITIALIZING\<close> with no points and the whole
      prior volume, whose logarithm is 0.\<close>
  "init_state =
     \<lparr>phase = INITIALIZING, dead_points = [], live_points = [],
      log_volume_estimate = 0, iteration = 0\<rparr>"

definition threshold :: "run_state \<Rightarrow> real option" where
  \<comment> \<open>Modelled from the spec: the current threshold \<open>L*\<close> is the log-likelihood of the most
      recently removed point; there is none before the first removal.\<close>
  "threshold s =
     (if dead_points s = [] then None
      else Some (point_log_likelihood (dead (last (dead_points s)))))"

definition worst :: "live_point list \<Rightarrow> live_point" where
  \<comment> \<open>Modelled from the spec: the current worst live point has the lowest log-likelihood.\<close>
  "worst ps = arg_min_list point_log_likelihood ps"

definition remove_worst :: "run_state \<Rightarrow> run_state" where
  \<comment> \<open>Modelled from the spec: the removal of the \<open>SAMPLING\<close> step of section 4.4. The worst
      live point becomes a dead point, and \<open>log_volume -= 1/N_live\<close> with the size of the live
      set at that step.\<close>
  "remove_worst s =
     (let n = length (live_points s);
          w = worst (live_points s);
          v = log_volume_estimate s - 1 / real n
      in s\<lparr>dead_points := dead_points s @ [\<lparr>dead = w, dead_log_volume = v, stratum = n\<rparr>],
           live_points := remove1 w (live_points s),
           log_volume_estimate := v,
           iteration := iteration s + 1\<rparr>)"

subsection \<open>Stopping rule and transitions\<close>

definition below_tolerance :: "real \<Rightarrow> tolerance \<Rightarrow> bool" where
  \<comment> \<open>Modelled from the spec: the remaining evidence, in log units, falls below the
      configured tolerance. Every real is below \<open>+infinity\<close>.\<close>
  "below_tolerance r tol =
     (case tol of
        Tol d \<Rightarrow> r < d
      | PosInf \<Rightarrow> True
      | NegInf \<Rightarrow> False
      | NotANumber \<Rightarrow> False)"

definition remaining_log_evidence :: "run_state \<Rightarrow> real" where
  \<comment> \<open>Modelled from the spec: \<open>log(mean_live_likelihood) + log_volume_remaining\<close>.\<close>
  "remaining_log_evidence s =
     ln (sum_list (map (\<lambda>p. exp (point_log_likelihood p)) (live_points s))
         / real (length (live_points s)))
     + log_volume_estimate s"

definition stopping_rule :: "run_config \<Rightarrow> real \<Rightarrow> real \<Rightarrow> nat \<Rightarrow> bool" where
  \<comment> \<open>Modelled from the spec: the stopping rule of section 4.4, on the remaining log
      evidence, the effective sample size and the size of the live set: the remaining
      evidence is below \<open>dlogZ\<close>, the effective sample size exceeds \<open>min_ess\<close>, and the live
      set is not below \<open>min_num_live_points\<close>.\<close>
  "stopping_rule cfg remaining ess n_live =
     (below_tolerance remaining (dlogZ cfg) \<and> real (min_ess cfg) < ess \<and>
      min_num_live_points cfg \<le> n_live)"

text \<open>
  Modelled from the spec: what the run state does not determine. The effective sample
  size is not defined by the specification, and the number of likelihood calls depends on
  the proposals rejected, so both are read from the environment, as are an external
  cancellation request (section 5) and an unrecoverable condition of the prior, the
  likelihood or the proposal engine (section 4.4, \<open>FAILED\<close>).
\<close>

record environment =
  ess :: "run_state \<Rightarrow> real"
  calls_made :: "run_state \<Rightarrow> nat"
  cancel_requested :: "run_state \<Rightarrow> bool"
  unrecoverable :: "run_state \<Rightarrow> bool"

definition budget_exceeded :: "run_config \<Rightarrow> environment \<Rightarrow> run_state \<Rightarrow> bool" where
  \<comment> \<open>Modelled from the spec: an iteration or evaluation budget, when configured, is used
      up (section 4.4, \<open>STOPPED\<close>).\<close>
  "budget_exceeded cfg env s =
     ((case max_iters cfg of None \<Rightarrow> False | Some m \<Rightarrow> m \<le> iteration s) \<or>
      (case max_calls cfg of None \<Rightarrow> False | Some m \<Rightarrow> m \<le> calls_made env s))"

text \<open>
  Modelled from the spec: the state machine of section 4.4,
  \<open>INITIALIZING -> SAMPLING -> (REACTIVE_EXPAND)* -> CONVERGED | STOPPED | FAILED\<close>.
  The points drawn (initial draws, replacements, points added by an expansion) come from
  the random generator and the proposal engine, so a transition holds for every point
  that meets the contract of section 4.3: a replacement or an added point has a
  log-likelihood above the current threshold. Integration terminates when the stopping
  rule holds, so \<open>SAMPLING\<close> removes a point or starts an expansion only while it does not
  hold; when an expansion is triggered is otherwise a tunable heuristic. A run is stopped
  on a cancellation request or an exceeded budget, and fails on an unrecoverable
  condition.
\<close>

inductive step :: "run_config \<Rightarrow> environment \<Rightarrow> run_state \<Rightarrow> run_state \<Rightarrow> bool"
  for cfg :: run_config and env :: environment
where
  draw:
    "phase s = INITIALIZING \<Longrightarrow> length (live_points s) < min_num_live_points cfg \<Longrightarrow>
     step cfg env s (s\<lparr>live_points := live_points s @ [p]\<rparr>)"
| start:
    "phase s = INITIALIZING \<Longrightarrow> length (live_points s) = min_num_live_points cfg \<Longrightarrow>
     step cfg env s (s\<lparr>phase := SAMPLING\<rparr>)"
| sample:
    "phase s = SAMPLING \<Longrightarrow> live_points s \<noteq> [] \<Longrightarrow>
     \<not> stopping_rule cfg (remaining_log_evidence s) (ess env s) (length (live_points s)) \<Longrightarrow>
     point_log_likelihood (worst (live_points s)) < point_log_likelihood q \<Longrightarrow>
     step cfg env s
       ((remove_worst s)\<lparr>live_points := live_points (remove_worst s) @ [q]\<rparr>)"
| expand_begin:
    "phase s = SAMPLING \<Longrightarrow>
     \<not> stopping_rule cfg (remaining_log_evidence s) (ess env s) (length (live_points s)) \<Longrightarrow>
     step cfg env s (s\<lparr>phase := REACTIVE_EXPAND\<rparr>)"
| expand_add:
    "phase s = REACTIVE_EXPAND \<Longrightarrow>
     (case threshold s of None \<Rightarrow> True | Some L \<Rightarrow> L < point_log_likelihood q) \<Longrightarrow>
     step cfg env s (s\<lparr>live_points := live_points s @ [q]\<rparr>)"
| expand_end:
    "phase s = REACTIVE_EXPAND \<Longrightarrow> step cfg env s (s\<lparr>phase := SAMPLING\<rparr>)"
| converge:
    "phase s = SAMPLING \<Longrightarrow>
     stopping_rule cfg (remaining_log_evidence s) (ess env s) (length (live_points s)) \<Longrightarrow>
     step cfg env s (s\<lparr>phase := CONVERGED\<rparr>)"
| stop:
    "phase s = INITIALIZING \<or> phase s = SAMPLING \<or> phase s = REACTIVE_EXPAND \<Longrightarrow>
     cancel_requested env s \<or> budget_exceeded cfg env s \<Longrightarrow>
     step cfg env s (s\<lparr>phase := STOPPED\<rparr>)"
| fail:
    "phase s = INITIALIZING \<or> phase s = SAMPLING \<or> phase s = REACTIVE_EXPAND \<Longrightarrow>
     unrecoverable env s \<Longrightarrow>
     step cfg env s (s\<lparr>phase := FAILED\<rparr>)"

definition reachable :: "run_config \<Rightarrow> environment \<Rightarrow> run_state \<Rightarrow> bool" where
  \<comment> \<open>Modelled from the spec: the states of a run are those the transitions reach from
      \<open>init_state\<close>.\<close>
  "reachable cfg env s = (step cfg env)\<^sup>*\<^sup>* init_state s"

section \<open>Properties of the model functions\<close>

lemma prior_transform_run:
  assumes a: "cube < length h" and l: "length (h ! cube) = 4"
  shows "prior_transform h cube =
    (Inr (length h),
     h @ [[(h ! cube) ! 0 * 20 - 10, 10 powr ((h ! cube) ! 1 * 4 - 2),
           10 powr ((h ! cube) ! 2 * 2), (h ! cube) ! 3]])"
proof -
  obtain c0 c1 c2 c3 where c: "h ! cube = [c0, c1, c2, c3]"
    using l by (auto simp: length_Suc_conv numeral_eq_Suc)
  have ne: "cube \<noteq> length h" using a by simp
  show ?thesis
    using a ne
    by (simp add: prior_transform_def ndarray_copy_def assign_def getitem_def setitem_def
        c nth_append list_update_append)
qed

lemma unit_cube_nth:
  "in_unit_cube D xs \<Longrightarrow> i < D \<Longrightarrow> 0 \<le> xs ! i \<and> xs ! i \<le> 1"
  by (simp add: in_unit_cube_def list_all_length)

lemma period_bounds:
  assumes "0 \<le> c" "c \<le> 1"
  shows "1 \<le> 10 powr (c * 2)" and "10 powr (c * 2) \<le> (100::real)"
proof -
  have "(10::real) powr 0 \<le> 10 powr (c * 2)"
    using assms by (intro powr_mono) simp_all
  then show "1 \<le> 10 powr (c * 2)" by simp
  have "(10::real) powr (c * 2) \<le> 10 powr 2"
    using assms by (intro powr_mono) simp_all
  then show "10 powr (c * 2) \<le> (100::real)" by simp
qed

lemma amplitude_bounds:
  assumes "0 \<le> c" "c \<le> 1"
  shows "1 / 100 \<le> 10 powr (c * 4 - 2)" and "10 powr (c * 4 - 2) \<le> (100::real)"
proof -
  have "(10::real) powr (- 2) \<le> 10 powr (c * 4 - 2)"
    using assms by (intro powr_mono) simp_all
  moreover have "(10::real) powr (- 2) = 1 / 100"
  proof -
    have "(10::real) powr (- 2) = inverse (10 powr 2)" by (rule powr_minus)
    also have "\<dots> = 1 / 100" by simp
    finally show ?thesis .
  qed
  ultimately show "1 / 100 \<le> 10 powr (c * 4 - 2)" by simp
  have "(10::real) powr (c * 4 - 2) \<le> 10 powr 2"
    using assms by (intro powr_mono) simp_all
  then show "10 powr (c * 4 - 2) \<le> (100::real)" by simp
qed

lemma setitem_frame:
  "setitem h p i v = Inr h' \<Longrightarrow> length h' = length h \<and> (\<forall>a. a \<noteq> p \<longrightarrow> h' ! a = h ! a)"
  by (auto simp: setitem_def split: if_splits)

lemma assign_frame:
  "assign p c i f h = Inr h' \<Longrightarrow> length h' = length h \<and> (\<forall>a. a \<noteq> p \<longrightarrow> h' ! a = h ! a)"
  unfolding assign_def by (auto split: sum.splits dest: setitem_frame)

lemma prior_transform_frame:
  assumes "prior_transform h cube = (r, h')" and "a < length h"
  shows "h' ! a = h ! a" and "length h' = Suc (length h)"
proof -
  have ne: "a \<noteq> length h" using assms(2) by simp
  have "h' ! a = h ! a \<and> length h' = Suc (length h)"
    using assms(1) ne assms(2)
    by (auto simp: prior_transform_def ndarray_copy_def nth_append
        split: sum.splits dest!: assign_frame)
  then show "h' ! a = h ! a" and "length h' = Suc (length h)" by simp_all
qed


lemma unit_cube_prior_range:
  assumes "in_unit_cube 4 c"
  shows "in_prior_range (c ! 0 * 20 - 10) (10 powr (c ! 1 * 4 - 2)) (10 powr (c ! 2 * 2)) (c ! 3)"
proof -
  note b0 = unit_cube_nth [OF assms, of 0]
  note b1 = unit_cube_nth [OF assms, of 1]
  note b2 = unit_cube_nth [OF assms, of 2]
  note b3 = unit_cube_nth [OF assms, of 3]
  have "1 / 100 \<le> 10 powr (c ! 1 * 4 - 2)" "10 powr (c ! 1 * 4 - 2) \<le> 100"
    using amplitude_bounds [of "c ! 1"] b1 by simp_all
  moreover have "1 \<le> 10 powr (c ! 2 * 2)" "10 powr (c ! 2 * 2) \<le> 100"
    using period_bounds [of "c ! 2"] b2 by simp_all
  ultimately show ?thesis using b0 b3 by (simp add: in_prior_range_def)
qed

section \<open>Properties of float64 rounding and of the model in float64\<close>

text \<open>
  Rounding stays within half a unit in the last place, never crosses a double, and is
  exact on doubles. From that: the relative error of an operation, the doubles 1 and 2,
  \<open>numpy.pi\<close> within \<open>2^-52\<close> of \<open>pi\<close>, and then the behaviour of \<open>sine_model\<close> and
  \<open>log_likelihood\<close> on the notebook's ranges.
\<close>

lemma ulp_pos: "0 < ulp x"
  by (simp add: ulp_def)

lemma binade_eq:
  assumes "2 powr real_of_int k \<le> \<bar>x\<bar>" and "\<bar>x\<bar> < 2 powr (real_of_int k + 1)" and "- 1022 \<le> k"
  shows "binade x = k"
proof -
  have "(0::real) < 2 powr real_of_int k" by simp
  then have "0 < \<bar>x\<bar>" using assms(1) by linarith
  then have "\<lfloor>log 2 \<bar>x\<bar>\<rfloor> = k"
    using assms(1,2) by (simp add: floor_log_eq_powr_iff)
  then show ?thesis using assms(3) \<open>0 < \<bar>x\<bar>\<close> by (simp add: binade_def)
qed

lemma binade_subnormal:
  assumes "\<bar>x\<bar> < 2 powr (- 1022)"
  shows "binade x = - 1022"
proof (cases "x = 0")
  case True
  then show ?thesis by (simp add: binade_def)
next
  case False
  then have "0 < \<bar>x\<bar>" by simp
  then have "log 2 \<bar>x\<bar> < - 1022"
    using assms by (simp add: log_less_iff)
  then have "\<lfloor>log 2 \<bar>x\<bar>\<rfloor> \<le> - 1022" by linarith
  then show ?thesis using False by (simp add: binade_def)
qed

lemma binade_powr_le:
  assumes "2 powr (- 1022) \<le> \<bar>x\<bar>"
  shows "2 powr real_of_int (binade x) \<le> \<bar>x\<bar>"
proof -
  have "(0::real) < 2 powr (- 1022)" by simp
  then have pos: "0 < \<bar>x\<bar>" using assms by linarith
  have "- 1022 \<le> log 2 \<bar>x\<bar>" using assms pos by (simp add: le_log_iff)
  then have "- 1022 \<le> \<lfloor>log 2 \<bar>x\<bar>\<rfloor>" by linarith
  then have "binade x = \<lfloor>log 2 \<bar>x\<bar>\<rfloor>" using pos by (simp add: binade_def)
  moreover have "real_of_int \<lfloor>log 2 \<bar>x\<bar>\<rfloor> \<le> log 2 \<bar>x\<bar>" by simp
  then have "2 powr real_of_int \<lfloor>log 2 \<bar>x\<bar>\<rfloor> \<le> \<bar>x\<bar>"
    using pos le_log_iff [of 2 "\<bar>x\<bar>" "real_of_int \<lfloor>log 2 \<bar>x\<bar>\<rfloor>"] by simp
  ultimately show ?thesis by simp
qed

lemma binade_upper:
  assumes "\<bar>x\<bar> \<le> 2 powr real_of_int k" and "- 1022 \<le> k"
  shows "binade x \<le> k"
proof (cases "x = 0")
  case True
  have "binade x = - 1022" by (rule binade_subnormal) (simp add: True)
  then show ?thesis using assms(2) by simp
next
  case False
  then have pos: "0 < \<bar>x\<bar>" by simp
  have "log 2 \<bar>x\<bar> \<le> real_of_int k" using assms(1) pos by (simp add: log_le_iff)
  then have "\<lfloor>log 2 \<bar>x\<bar>\<rfloor> \<le> k" by linarith
  then show ?thesis using assms(2) False by (simp add: binade_def)
qed

lemma ulp_le_rel:
  assumes "2 powr (- 1022) \<le> \<bar>x\<bar>"
  shows "ulp x \<le> \<bar>x\<bar> / 2 ^ 52"
proof -
  have "ulp x = 2 powr real_of_int (binade x) / 2 ^ 52"
    by (simp add: ulp_def powr_diff)
  then show ?thesis using binade_powr_le [OF assms] by (simp add: divide_right_mono)
qed

lemma ulp_subnormal: "\<bar>x\<bar> < 2 powr (- 1022) \<Longrightarrow> ulp x = 2 powr (- 1074)"
  by (simp add: ulp_def binade_subnormal)

lemma ulp_le: "ulp x \<le> \<bar>x\<bar> / 2 ^ 52 + 2 powr (- 1074)"
proof (cases "2 powr (- 1022) \<le> \<bar>x\<bar>")
  case True
  have "(0::real) < 2 powr (- 1074)" by simp
  then show ?thesis using ulp_le_rel [OF True] by linarith
next
  case False
  then show ?thesis using ulp_subnormal [of x] by simp
qed

lemma rnd_down:
  "x / ulp x - of_int \<lfloor>x / ulp x\<rfloor> < 1 / 2 \<or>
     (x / ulp x - of_int \<lfloor>x / ulp x\<rfloor> = 1 / 2 \<and> even \<lfloor>x / ulp x\<rfloor>) \<Longrightarrow>
   rnd x = of_int \<lfloor>x / ulp x\<rfloor> * ulp x"
  unfolding rnd_def Let_def by (simp only: if_P)

lemma rnd_up:
  "\<not> (x / ulp x - of_int \<lfloor>x / ulp x\<rfloor> < 1 / 2 \<or>
     (x / ulp x - of_int \<lfloor>x / ulp x\<rfloor> = 1 / 2 \<and> even \<lfloor>x / ulp x\<rfloor>)) \<Longrightarrow>
   rnd x = of_int (\<lfloor>x / ulp x\<rfloor> + 1) * ulp x"
  unfolding rnd_def Let_def by (simp only: if_not_P if_False)

lemma rnd_cases:
  "rnd x = of_int \<lfloor>x / ulp x\<rfloor> * ulp x \<or> rnd x = of_int (\<lfloor>x / ulp x\<rfloor> + 1) * ulp x"
  using rnd_down [of x] rnd_up [of x] by blast

lemma rnd_err: "\<bar>rnd x - x\<bar> \<le> ulp x / 2"
proof -
  let ?u = "ulp x" and ?q = "x / ulp x"
  let ?n = "\<lfloor>?q\<rfloor>"
  have u: "0 < ?u" by (rule ulp_pos)
  have x: "x = ?q * ?u" using u by simp
  have n: "of_int ?n \<le> ?q" "?q < of_int ?n + 1" by linarith+
  show ?thesis
  proof (cases "?q - of_int ?n < 1 / 2 \<or> (?q - of_int ?n = 1 / 2 \<and> even ?n)")
    case True
    then have r: "rnd x = of_int ?n * ?u" by (rule rnd_down)
    have "of_int ?n * ?u - ?q * ?u = (of_int ?n - ?q) * ?u"
      by (simp only: left_diff_distrib)
    then have "\<bar>of_int ?n * ?u - ?q * ?u\<bar> = \<bar>of_int ?n - ?q\<bar> * ?u"
      using u by (simp only: abs_mult abs_of_pos)
    also have "\<dots> \<le> (1 / 2) * ?u"
      using True n u by (intro mult_right_mono) auto
    finally show ?thesis using r x by simp
  next
    case False
    then have r: "rnd x = of_int (?n + 1) * ?u" by (rule rnd_up)
    have "of_int (?n + 1) * ?u - ?q * ?u = (of_int (?n + 1) - ?q) * ?u"
      by (simp only: left_diff_distrib)
    then have "\<bar>of_int (?n + 1) * ?u - ?q * ?u\<bar> = \<bar>of_int (?n + 1) - ?q\<bar> * ?u"
      using u by (simp only: abs_mult abs_of_pos)
    also have "\<dots> \<le> (1 / 2) * ?u"
      using False n u by (intro mult_right_mono) auto
    finally show ?thesis using r x by simp
  qed
qed

lemma rnd_grid_le:
  assumes "x \<le> of_int k * ulp x"
  shows "rnd x \<le> of_int k * ulp x"
proof -
  let ?u = "ulp x" and ?q = "x / ulp x"
  let ?n = "\<lfloor>?q\<rfloor>"
  have u: "0 < ?u" by (rule ulp_pos)
  have q: "?q \<le> of_int k" using assms u by (simp add: pos_divide_le_eq)
  then have nk: "?n \<le> k" by (simp add: floor_le_iff)
  show ?thesis
  proof (cases "?q - of_int ?n < 1 / 2 \<or> (?q - of_int ?n = 1 / 2 \<and> even ?n)")
    case True
    then have "rnd x = of_int ?n * ?u" by (rule rnd_down)
    then show ?thesis using nk u by (simp add: mult_right_mono)
  next
    case False
    then have r: "rnd x = of_int (?n + 1) * ?u" by (rule rnd_up)
    from False have "\<not> (?q - of_int ?n < 1 / 2)" by blast
    then have "of_int ?n < ?q" by linarith
    then have "of_int ?n < (of_int k :: real)" using q by linarith
    then have "?n + 1 \<le> k" by simp
    then have "(of_int (?n + 1) :: real) \<le> of_int k" by (simp only: of_int_le_iff)
    then show ?thesis using r u by (simp add: mult_right_mono)
  qed
qed

lemma rnd_grid_ge:
  assumes "of_int k * ulp x \<le> x"
  shows "of_int k * ulp x \<le> rnd x"
proof -
  let ?u = "ulp x" and ?q = "x / ulp x"
  let ?n = "\<lfloor>?q\<rfloor>"
  have u: "0 < ?u" by (rule ulp_pos)
  have q: "of_int k \<le> ?q" using assms u by (simp add: pos_le_divide_eq)
  then have nk: "k \<le> ?n" by (simp add: le_floor_iff)
  then have "(of_int k :: real) \<le> of_int ?n" "(of_int k :: real) \<le> of_int (?n + 1)"
    by simp_all
  then have "of_int k * ?u \<le> of_int ?n * ?u" "of_int k * ?u \<le> of_int (?n + 1) * ?u"
    using u by (simp_all add: mult_right_mono del: of_int_add)
  then show ?thesis using rnd_cases [of x] by auto
qed

lemma rnd_nonneg: "0 \<le> x \<Longrightarrow> 0 \<le> rnd x"
  using rnd_grid_ge [of 0 x] by simp

lemma rnd_nonpos: "x \<le> 0 \<Longrightarrow> rnd x \<le> 0"
  using rnd_grid_le [of x 0] by simp

lemma rnd_zero: "rnd 0 = 0"
  using rnd_nonneg [of 0] rnd_nonpos [of 0] by simp

lemma rnd_rel_err:
  assumes "1 / 2 ^ 1022 \<le> \<bar>x\<bar>"
  shows "\<bar>rnd x - x\<bar> \<le> \<bar>x\<bar> / 2 ^ 53"
proof -
  have "(2::real) powr (- 1022) = 1 / 2 ^ 1022" by (simp add: powr_neg_numeral)
  then have "ulp x \<le> \<bar>x\<bar> / 2 ^ 52" using assms ulp_le_rel [of x] by simp
  then have "ulp x / 2 \<le> \<bar>x\<bar> / 2 ^ 53" by simp
  then show ?thesis using rnd_err [of x] by linarith
qed

lemma rnd_abs_err: "\<bar>rnd x - x\<bar> \<le> \<bar>x\<bar> / 2 ^ 53 + 1 / 2 ^ 1075"
proof -
  have "(2::real) powr (- 1074) = 1 / 2 ^ 1074" by (simp add: powr_neg_numeral)
  then have "ulp x \<le> \<bar>x\<bar> / 2 ^ 52 + 1 / 2 ^ 1074" using ulp_le [of x] by simp
  then have "ulp x / 2 \<le> \<bar>x\<bar> / 2 ^ 53 + 1 / 2 ^ 1075" by simp
  then show ?thesis using rnd_err [of x] by linarith
qed

lemma grid_point:
  assumes "binade x - 52 \<le> j"
  shows "\<exists>k. of_int c * 2 powr real_of_int j = of_int k * ulp x"
proof -
  let ?d = "nat (j - (binade x - 52))"
  have "real_of_int j = real ?d + (real_of_int (binade x) - 52)"
    using assms by simp
  then have "(2::real) powr real_of_int j = 2 powr real ?d * ulp x"
    unfolding ulp_def by (simp only: powr_add)
  also have "(2::real) powr real ?d = 2 ^ ?d" by (simp add: powr_realpow)
  finally have "of_int c * 2 powr real_of_int j = of_int (c * 2 ^ ?d) * ulp x"
    by simp
  then show ?thesis by blast
qed

lemma rnd_le_grid:
  assumes "x \<le> of_int c * 2 powr real_of_int j" and "binade x - 52 \<le> j"
  shows "rnd x \<le> of_int c * 2 powr real_of_int j"
proof -
  obtain k where k: "of_int c * 2 powr real_of_int j = of_int k * ulp x"
    using grid_point [OF assms(2)] by blast
  show ?thesis using rnd_grid_le [of x k] assms(1) unfolding k by simp
qed

lemma rnd_ge_grid:
  assumes "of_int c * 2 powr real_of_int j \<le> x" and "binade x - 52 \<le> j"
  shows "of_int c * 2 powr real_of_int j \<le> rnd x"
proof -
  obtain k where k: "of_int c * 2 powr real_of_int j = of_int k * ulp x"
    using grid_point [OF assms(2)] by blast
  show ?thesis using rnd_grid_ge [of k x] assms(1) unfolding k by simp
qed

lemma rnd_exact:
  assumes "x = of_int c * 2 powr real_of_int j" and "binade x - 52 \<le> j"
  shows "rnd x = x"
proof -
  have "rnd x \<le> of_int c * 2 powr real_of_int j"
    by (rule rnd_le_grid) (use assms in simp_all)
  moreover have "of_int c * 2 powr real_of_int j \<le> rnd x"
    by (rule rnd_ge_grid) (use assms in simp_all)
  ultimately show ?thesis using assms(1) by simp
qed

lemma binade_le_1023:
  assumes "\<bar>x\<bar> \<le> max_float"
  shows "binade x \<le> 1023"
proof (cases "1 / 2 ^ 1022 \<le> \<bar>x\<bar>")
  case False
  then have "\<bar>x\<bar> < 2 powr (- 1022)" by (simp add: powr_neg_numeral)
  then show ?thesis using binade_subnormal [of x] by simp
next
  case True
  moreover have "(0::real) < 1 / 2 ^ 1022" by simp
  ultimately have pos: "0 < \<bar>x\<bar>" by linarith
  have "max_float < 2 ^ 1024" by (simp add: max_float_def)
  then have "\<bar>x\<bar> < 2 powr 1024" using assms by simp
  then have "log 2 \<bar>x\<bar> < 1024" using pos by (simp add: log_less_iff)
  then have "\<lfloor>log 2 \<bar>x\<bar>\<rfloor> \<le> 1023" by linarith
  then show ?thesis using pos by (simp add: binade_def)
qed

lemma max_float_grid: "max_float = of_int (2 ^ 53 - 1) * 2 powr real_of_int 971"
  by (simp add: max_float_def)

lemma rnd_le_max_float:
  assumes "\<bar>x\<bar> \<le> max_float"
  shows "\<bar>rnd x\<bar> \<le> max_float"
proof -
  have b: "binade x - 52 \<le> 971" using binade_le_1023 [OF assms] by simp
  have "x \<le> of_int (2 ^ 53 - 1) * 2 powr real_of_int 971"
    using assms unfolding max_float_grid by simp
  then have up: "rnd x \<le> max_float"
    unfolding max_float_grid by (rule rnd_le_grid) (rule b)
  have "of_int (- (2 ^ 53 - 1)) * 2 powr real_of_int 971 \<le> x"
    using assms unfolding max_float_grid by simp
  then have "of_int (- (2 ^ 53 - 1)) * 2 powr real_of_int 971 \<le> rnd x"
    by (rule rnd_ge_grid) (rule b)
  then have lo: "- max_float \<le> rnd x" unfolding max_float_grid by simp
  show ?thesis using up lo by simp
qed

lemma fl_Some: "\<bar>x\<bar> \<le> max_float \<Longrightarrow> fl x = Some (rnd x)"
  by (simp add: fl_def rnd_le_max_float)

lemma rnd_le_pow2:
  assumes "\<bar>x\<bar> \<le> 2 ^ k"
  shows "\<bar>rnd x\<bar> \<le> 2 ^ k"
proof -
  have p: "(2::real) ^ k = of_int 1 * 2 powr real_of_int (int k)"
    by (simp add: powr_realpow)
  have "\<bar>x\<bar> \<le> 2 powr real_of_int (int k)" using assms by (simp add: powr_realpow)
  then have "binade x \<le> int k" by (rule binade_upper) simp
  then have b: "binade x - 52 \<le> int k" by simp
  have "x \<le> of_int 1 * 2 powr real_of_int (int k)" using assms unfolding p by simp
  then have up: "rnd x \<le> of_int 1 * 2 powr real_of_int (int k)"
    by (rule rnd_le_grid) (rule b)
  have "of_int (- 1) * 2 powr real_of_int (int k) \<le> x" using assms unfolding p by simp
  then have "of_int (- 1) * 2 powr real_of_int (int k) \<le> rnd x"
    by (rule rnd_ge_grid) (rule b)
  then show ?thesis using up unfolding p by simp
qed

lemma rnd_absorb:
  assumes "0 \<le> x" and "x < 1 / 2 ^ 53"
  shows "rnd (x + 1) = 1"
proof -
  have "1 / 2 ^ 53 < (1::real)" by simp
  then have x1: "x < 1" using assms(2) by linarith
  have b: "binade (x + 1) = 0"
    by (rule binade_eq) (use assms x1 in simp_all)
  then have u: "ulp (x + 1) = 1 / 2 ^ 52" by (simp add: ulp_def powr_neg_numeral)
  have q: "(x + 1) / ulp (x + 1) = 2 ^ 52 + x * 2 ^ 52" unfolding u by (simp add: algebra_simps)
  have f: "0 \<le> x * 2 ^ 52" "x * 2 ^ 52 < 1 / 2" using assms by simp_all
  have "\<lfloor>(2::real) ^ 52 + x * 2 ^ 52\<rfloor> = 2 ^ 52"
  proof (rule floor_unique)
    show "of_int (2 ^ 52) \<le> (2::real) ^ 52 + x * 2 ^ 52" using f by simp
    show "(2::real) ^ 52 + x * 2 ^ 52 < of_int (2 ^ 52) + 1" using f by simp
  qed
  then have n: "\<lfloor>(x + 1) / ulp (x + 1)\<rfloor> = 2 ^ 52" unfolding q .
  have "(x + 1) / ulp (x + 1) - of_int \<lfloor>(x + 1) / ulp (x + 1)\<rfloor> < 1 / 2"
    unfolding n unfolding q using f by simp
  then have "rnd (x + 1) = of_int \<lfloor>(x + 1) / ulp (x + 1)\<rfloor> * ulp (x + 1)"
    by (intro rnd_down) blast
  then have "rnd (x + 1) = of_int (2 ^ 52) * ulp (x + 1)" unfolding n .
  then show ?thesis unfolding u by simp
qed

lemma rnd_two: "rnd 2 = 2"
proof -
  have "binade 2 = 1" by (rule binade_eq) simp_all
  then show ?thesis using rnd_exact [of 2 2 0] by simp
qed

lemma pi_ge_3: "3 \<le> pi"
proof -
  have "sin (pi / 6) \<le> pi / 6" by (rule sin_x_le_x) simp
  then show ?thesis by (simp add: sin_30)
qed

lemma binade_pi: "binade pi = 1"
  by (rule binade_eq) (use pi_ge_3 pi_less_4 in simp_all)

lemma float_pi_err: "\<bar>float_pi - pi\<bar> \<le> 1 / 2 ^ 52"
proof -
  have "ulp pi = 1 / 2 ^ 51" by (simp add: ulp_def binade_pi powr_neg_numeral)
  then show ?thesis using rnd_err [of pi] by (simp add: float_pi_def)
qed

lemma float_pi_ge: "3 \<le> float_pi"
  using rnd_ge_grid [of 3 0 pi] pi_ge_3 by (simp add: float_pi_def binade_pi)

lemma float_pi_le: "float_pi \<le> 4"
  using rnd_le_grid [of pi 4 0] pi_less_4 by (simp add: float_pi_def binade_pi)

lemma rnd_two_float_pi: "rnd (2 * float_pi) = 2 * float_pi"
proof (cases "float_pi < 4")
  case True
  have b: "binade (2 * float_pi) = 2"
    by (rule binade_eq) (use True float_pi_ge in simp_all)
  have u: "ulp pi = 2 powr (- 51)" by (simp add: ulp_def binade_pi)
  obtain m :: int where "float_pi = of_int m * ulp pi"
    using rnd_cases [of pi] unfolding float_pi_def by blast
  then have "2 * float_pi = of_int m * (2 powr 1 * 2 powr (- 51))" unfolding u by simp
  also have "(2::real) powr 1 * 2 powr (- 51) = 2 powr real_of_int (- 50)"
    by (simp add: powr_neg_numeral)
  finally have "2 * float_pi = of_int m * 2 powr real_of_int (- 50)" .
  then show ?thesis by (rule rnd_exact) (simp add: b)
next
  case False
  then have e: "float_pi = 4" using float_pi_le by simp
  have "binade 8 = 3" by (rule binade_eq) simp_all
  then have "rnd 8 = 8" using rnd_exact [of 8 8 0] by simp
  then show ?thesis by (simp add: e)
qed

lemma sin_two_float_pi: "\<bar>sin (2 * float_pi)\<bar> \<le> 1 / 2 ^ 51"
proof -
  have "sin (2 * float_pi) = sin (2 * float_pi - 2 * pi)"
    by (simp add: sin_diff)
  then have "\<bar>sin (2 * float_pi)\<bar> \<le> \<bar>2 * float_pi - 2 * pi\<bar>"
    using abs_sin_x_le_abs_x [of "2 * float_pi - 2 * pi"] by simp
  also have "\<dots> = 2 * \<bar>float_pi - pi\<bar>"
    by (simp only: right_diff_distrib [symmetric] abs_mult)
  also have "\<dots> \<le> 1 / 2 ^ 51" using float_pi_err by simp
  finally show ?thesis .
qed

lemma sin_small:
  fixes x :: real
  assumes "0 \<le> x"
  shows "x - x\<^sup>2 / 2 \<le> sin x"
proof -
  have "(\<Sum>m<2. sin_coeff m * x ^ m) = x"
    by (simp add: sin_coeff_def numeral_2_eq_2)
  then have "\<bar>sin x - x\<bar> \<le> inverse (fact 2) * \<bar>x\<bar> ^ 2"
    using Maclaurin_sin_bound [of x 2] by simp
  then have "\<bar>sin x - x\<bar> \<le> x\<^sup>2 / 2" by simp
  then show ?thesis by linarith
qed

lemma elementwise_Nil: "elementwise f [] = Inr []"
  by (simp add: elementwise_def)

lemma elementwise_Cons:
  "elementwise f (x # xs) =
     (case f x of
        None \<Rightarrow> Inl NonFinite
      | Some y \<Rightarrow> (case elementwise f xs of Inl e \<Rightarrow> Inl NonFinite | Inr ys \<Rightarrow> Inr (y # ys)))"
  by (simp add: elementwise_def split: option.splits)

lemma elementwise_Inl: "elementwise f xs = Inl e \<Longrightarrow> e = NonFinite"
  by (auto simp: elementwise_def split: option.splits)

lemma elementwise_fuse:
  "and_then (elementwise f xs) (elementwise g) = elementwise (\<lambda>x. Option.bind (f x) g) xs"
proof (induction xs)
  case Nil
  show ?case by (simp add: elementwise_Nil and_then_def)
next
  case (Cons x xs)
  show ?case
  proof (cases "f x")
    case None
    then show ?thesis by (simp add: elementwise_Cons and_then_def)
  next
    case (Some y)
    show ?thesis
    proof (cases "elementwise f xs")
      case (Inl e)
      then have "elementwise (\<lambda>x. Option.bind (f x) g) xs = Inl e"
        using Cons.IH by (simp add: and_then_def)
      then show ?thesis using Some Inl
        by (simp add: elementwise_Cons and_then_def split: option.splits)
    next
      case (Inr ys)
      then have "elementwise (\<lambda>x. Option.bind (f x) g) xs = elementwise g ys"
        using Cons.IH by (simp add: and_then_def)
      then show ?thesis using Some Inr
        by (simp add: elementwise_Cons and_then_def split: option.splits)
    qed
  qed
qed

lemma sine_model_pointwise:
  "sine_model t B A P t0 = elementwise (sine_point B A P t0) t"
proof -
  have "sine_model t B A P t0 =
    and_then (and_then (and_then (and_then (and_then (and_then
      (elementwise (\<lambda>x. fdiv x P) t)
      (elementwise (\<lambda>x. fadd x t0)))
      (elementwise (\<lambda>x. fmul x 2)))
      (elementwise (\<lambda>x. fmul x float_pi)))
      (elementwise fsin))
      (elementwise (\<lambda>x. fmul A x)))
      (elementwise (\<lambda>x. fadd x B))"
    by (simp add: sine_model_def true_divide_def and_then_def split: sum.splits)
  also have "\<dots> = elementwise (sine_point B A P t0) t"
    unfolding elementwise_fuse sine_point_def
    by (simp add: Option.bind_assoc cong: Option.bind_cong)
  finally show ?thesis .
qed

lemma elementwise_ex:
  assumes "\<And>x. x \<in> set xs \<Longrightarrow> \<exists>y. f x = Some y \<and> Q x y"
  shows "\<exists>ys. elementwise f xs = Inr ys \<and> list_all2 Q xs ys"
  using assms
proof (induction xs)
  case Nil
  show ?case by (simp add: elementwise_Nil)
next
  case (Cons x xs)
  obtain y where y: "f x = Some y" "Q x y" using Cons.prems [of x] by auto
  obtain ys where ys: "elementwise f xs = Inr ys" "list_all2 Q xs ys"
    using Cons.IH Cons.prems by auto
  show ?case using y ys by (simp add: elementwise_Cons)
qed

lemma elementwise_Inr:
  assumes "elementwise f xs = Inr ys"
  shows "list_all2 (\<lambda>x y. f x = Some y) xs ys"
  using assms
proof (induction xs arbitrary: ys)
  case Nil
  then show ?case by (simp add: elementwise_Nil)
next
  case (Cons x xs)
  then show ?case
    by (auto simp: elementwise_Cons split: option.splits sum.splits)
qed

lemma fl_small: "\<bar>z\<bar> \<le> 2 ^ 1023 \<Longrightarrow> fl z = Some (rnd z)"
proof -
  assume a: "\<bar>z\<bar> \<le> 2 ^ 1023"
  have "(2::real) ^ 1023 \<le> max_float" by (simp add: max_float_def)
  then show ?thesis using a by (intro fl_Some) linarith
qed

lemma fl_pow2:
  assumes "k \<le> 1023" and "\<bar>z\<bar> \<le> 2 ^ k"
  shows "fl z = Some (rnd z)" and "\<bar>rnd z\<bar> \<le> 2 ^ k"
proof -
  have "(2::real) ^ k \<le> 2 ^ 1023" using assms(1) by (intro power_increasing) simp_all
  then show "fl z = Some (rnd z)" using assms(2) by (intro fl_small) linarith
  show "\<bar>rnd z\<bar> \<le> 2 ^ k" by (rule rnd_le_pow2 [OF assms(2)])
qed

lemma rnd_close:
  assumes "\<bar>z\<bar> \<le> K"
  shows "\<bar>rnd z - z\<bar> \<le> (K + 1) / 2 ^ 53"
proof -
  have "\<bar>z\<bar> / 2 ^ 53 \<le> K / 2 ^ 53" using assms by (simp add: divide_right_mono)
  moreover have "(1::real) / 2 ^ 1075 \<le> 1 / 2 ^ 53"
    by (intro divide_left_mono power_increasing) simp_all
  ultimately show ?thesis using rnd_abs_err [of z] by (simp add: add_divide_distrib)
qed

lemma prod_close:
  fixes a b a' b' :: real
  assumes "\<bar>a - a'\<bar> \<le> da" and "\<bar>b - b'\<bar> \<le> db" and "\<bar>a\<bar> \<le> Ka" and "\<bar>b'\<bar> \<le> Kb"
  shows "\<bar>a * b - a' * b'\<bar> \<le> Ka * db + Kb * da"
proof -
  have "a * b - a' * b' = a * (b - b') + b' * (a - a')" by (simp add: algebra_simps)
  then have "\<bar>a * b - a' * b'\<bar> \<le> \<bar>a\<bar> * \<bar>b - b'\<bar> + \<bar>b'\<bar> * \<bar>a - a'\<bar>"
    by (metis abs_mult abs_triangle_ineq)
  moreover have "\<bar>a\<bar> * \<bar>b - b'\<bar> \<le> Ka * db"
    using assms by (intro mult_mono) auto
  moreover have "\<bar>b'\<bar> * \<bar>a - a'\<bar> \<le> Kb * da"
    using assms by (intro mult_mono) auto
  ultimately show ?thesis by linarith
qed

lemma sin_lipschitz: "\<bar>sin a - sin b\<bar> \<le> \<bar>a - b\<bar>" for a b :: real
proof -
  have "\<bar>sin a - sin b\<bar> = 2 * \<bar>sin ((a - b) / 2)\<bar> * \<bar>cos ((a + b) / 2)\<bar>"
    by (simp add: sin_diff_sin abs_mult)
  also have "\<dots> \<le> 2 * \<bar>(a - b) / 2\<bar> * 1"
    by (intro mult_mono abs_sin_x_le_abs_x) simp_all
  finally show ?thesis by simp
qed

lemma sine_point_approx:
  assumes x: "\<bar>x\<bar> \<le> 5" and P: "1 \<le> P" and t0: "\<bar>t0\<bar> \<le> 2"
    and A: "\<bar>A\<bar> \<le> 128" and B: "\<bar>B\<bar> \<le> 16"
  shows "\<exists>m. sine_point B A P t0 x = Some m \<and>
           \<bar>m - sine_formula B A P t0 x\<bar> \<le> 1 / 2 ^ 37"
proof -
  define e :: real where "e = 1 / 2 ^ 53"
  have e: "0 < e" "e \<le> 1 / 2 ^ 53" "1 / 2 ^ 53 \<le> e" by (simp_all add: e_def)
  have esmall: "e \<le> 1 / 1000000" unfolding e_def by simp
  define q where "q = x / P"
  have q: "\<bar>q\<bar> \<le> 5"
  proof -
    have "\<bar>q\<bar> = \<bar>x\<bar> / P" using P by (simp add: q_def)
    also have "\<dots> \<le> \<bar>x\<bar> / 1" using P by (intro divide_left_mono) simp_all
    finally show ?thesis using x by simp
  qed
  define d where "d = rnd q"
  have d: "\<bar>d - q\<bar> \<le> 6 * e" using rnd_close [OF q] by (simp add: d_def e_def)
  have dK: "\<bar>d + t0\<bar> \<le> 8" using d q t0 esmall by (auto simp: abs_le_iff)
  define a where "a = rnd (d + t0)"
  have a0: "\<bar>a - (d + t0)\<bar> \<le> 9 * e" using rnd_close [OF dK] by (simp add: a_def e_def)
  have a: "\<bar>a - (q + t0)\<bar> \<le> 15 * e" using a0 d by (auto simp: abs_le_iff)
  have aK: "\<bar>a * 2\<bar> \<le> 18" using a q t0 esmall by (auto simp: abs_le_iff)
  define b where "b = rnd (a * 2)"
  have b0: "\<bar>b - a * 2\<bar> \<le> 19 * e" using rnd_close [OF aK] by (simp add: b_def e_def)
  have b: "\<bar>b - 2 * (q + t0)\<bar> \<le> 49 * e" using b0 a by (auto simp: abs_le_iff)
  have bK: "\<bar>b\<bar> \<le> 15" using b q t0 esmall by (auto simp: abs_le_iff)
  have fp: "\<bar>float_pi - pi\<bar> \<le> 2 * e" using float_pi_err by (simp add: e_def)
  have fpK: "\<bar>float_pi\<bar> \<le> 4" using float_pi_ge float_pi_le by simp
  have piK: "\<bar>pi\<bar> \<le> 4" using pi_less_4 by simp
  have bfK: "\<bar>b * float_pi\<bar> \<le> 60"
  proof -
    have "\<bar>b\<bar> * \<bar>float_pi\<bar> \<le> 15 * 4" using bK fpK by (intro mult_mono) simp_all
    then show ?thesis by (simp add: abs_mult)
  qed
  define c where "c = rnd (b * float_pi)"
  have c0: "\<bar>c - b * float_pi\<bar> \<le> 61 * e" using rnd_close [OF bfK] by (simp add: c_def e_def)
  let ?X = "2 * pi * (q + t0)"
  have "\<bar>b * float_pi - 2 * (q + t0) * pi\<bar> \<le> 15 * (2 * e) + 4 * (49 * e)"
    by (rule prod_close [OF b fp bK piK])
  then have c1: "\<bar>b * float_pi - ?X\<bar> \<le> 226 * e" by (simp add: mult.commute mult.left_commute)
  have c: "\<bar>c - ?X\<bar> \<le> 287 * e" using c0 c1 by (auto simp: abs_le_iff)
  have sK: "\<bar>sin c\<bar> \<le> 1" by simp
  define s where "s = rnd (sin c)"
  have s0: "\<bar>s - sin c\<bar> \<le> 2 * e" using rnd_close [OF sK] by (simp add: s_def e_def)
  have "\<bar>sin c - sin ?X\<bar> \<le> 287 * e" using sin_lipschitz [of c ?X] c by (auto simp: abs_le_iff)
  then have s: "\<bar>s - sin ?X\<bar> \<le> 289 * e" using s0 by (auto simp: abs_le_iff)
  have sX: "\<bar>sin ?X\<bar> \<le> 1" by simp
  have "\<bar>A * s - A * sin ?X\<bar> \<le> 128 * (289 * e) + 1 * 0"
    by (rule prod_close [of A A 0 s "sin ?X" "289 * e" 128 1]) (use A s sX in simp_all)
  then have g1: "\<bar>A * s - A * sin ?X\<bar> \<le> 36992 * e" by simp
  have AX: "\<bar>A * sin ?X\<bar> \<le> 128"
  proof -
    have "\<bar>A\<bar> * \<bar>sin ?X\<bar> \<le> 128 * 1" using A sX by (intro mult_mono) simp_all
    then show ?thesis by (simp add: abs_mult)
  qed
  have gK: "\<bar>A * s\<bar> \<le> 129" using g1 AX esmall by (auto simp: abs_le_iff)
  define g where "g = rnd (A * s)"
  have g0: "\<bar>g - A * s\<bar> \<le> 130 * e" using rnd_close [OF gK] by (simp add: g_def e_def)
  have g: "\<bar>g - A * sin ?X\<bar> \<le> 37122 * e" using g0 g1 by (auto simp: abs_le_iff)
  have mK: "\<bar>g + B\<bar> \<le> 146" using g AX B esmall by (auto simp: abs_le_iff)
  define m where "m = rnd (g + B)"
  have m0: "\<bar>m - (g + B)\<bar> \<le> 147 * e" using rnd_close [OF mK] by (simp add: m_def e_def)
  have m1: "\<bar>m - (A * sin ?X + B)\<bar> \<le> 37269 * e"
    using m0 g by (auto simp: abs_le_iff)
  have m2: "37269 * e \<le> 1 / 2 ^ 37" unfolding e_def by simp
  have approx: "\<bar>m - sine_formula B A P t0 x\<bar> \<le> 1 / 2 ^ 37"
    unfolding sine_formula_def using order_trans [OF m1 m2] by (simp only: q_def)
  have P0: "P \<noteq> 0" using P by simp
  have f1: "fdiv x P = Some d"
    unfolding fdiv_def d_def using P0 q by (simp add: fl_small q_def)
  have f2: "fadd d t0 = Some a" unfolding fadd_def a_def using dK by (simp add: fl_small)
  have f3: "fmul a 2 = Some b" unfolding fmul_def b_def using aK by (simp add: fl_small)
  have f4: "fmul b float_pi = Some c" unfolding fmul_def c_def using bfK by (simp add: fl_small)
  have "\<bar>sin c\<bar> \<le> 2 ^ 1023" by (rule order_trans [OF abs_sin_le_one]) simp
  then have f5: "fsin c = Some s" unfolding fsin_def s_def by (rule fl_small)
  have f6: "fmul A s = Some g" unfolding fmul_def g_def using gK by (simp add: fl_small)
  have f7: "fadd g B = Some m" unfolding fadd_def m_def using mK by (simp add: fl_small)
  have "sine_point B A P t0 x = Some m"
    unfolding sine_point_def by (simp add: f1 f2 f3 f4 f5 f6 f7)
  then show ?thesis using approx by blast
qed

lemma rnd_lower:
  assumes "1 / 2 ^ 1022 \<le> L" and "L \<le> z"
  shows "L - L / 2 ^ 53 \<le> rnd z"
proof -
  have "(0::real) < 1 / 2 ^ 1022" by simp
  then have z: "0 < z" "\<bar>z\<bar> = z" using assms by linarith+
  have "1 / 2 ^ 1022 \<le> \<bar>z\<bar>" using assms z by linarith
  then have "\<bar>rnd z - z\<bar> \<le> z / 2 ^ 53" using rnd_rel_err [of z] z by simp
  then have "z - z / 2 ^ 53 \<le> rnd z" by linarith
  moreover have "L - L / 2 ^ 53 \<le> z - z / 2 ^ 53"
  proof -
    have "L * (1 - 1 / 2 ^ 53) \<le> z * (1 - 1 / 2 ^ 53)"
      using assms(2) by (intro mult_right_mono) simp_all
    then show ?thesis by (simp add: algebra_simps)
  qed
  ultimately show ?thesis by linarith
qed

lemma rnd_upper:
  assumes "1 / 2 ^ 1022 \<le> K" and "\<bar>z\<bar> \<le> K"
  shows "\<bar>rnd z\<bar> \<le> K + K / 2 ^ 52"
proof -
  have "\<bar>z\<bar> / 2 ^ 53 \<le> K / 2 ^ 53" using assms(2) by (simp add: divide_right_mono)
  moreover have "(1::real) / 2 ^ 1075 \<le> K / 2 ^ 53"
  proof -
    have "(1::real) / 2 ^ 1075 = (1 / 2 ^ 1022) / 2 ^ 53" by simp
    also have "\<dots> \<le> K / 2 ^ 53" using assms(1) by (intro divide_right_mono) simp_all
    finally show ?thesis .
  qed
  moreover have "K / 2 ^ 53 + K / 2 ^ 53 = K / 2 ^ 52" by simp
  ultimately show ?thesis using rnd_abs_err [of z] assms(2) by linarith
qed

lemma sine_point_at_zero:
  "\<exists>m. sine_point 0 1 1 0 (7 / 2 ^ 56) = Some m \<and> 652 / 2 ^ 60 \<le> m"
proof -
  define u :: real where "u = 1 / 2 ^ 60"
  define x :: real where "x = 7 / 2 ^ 56"
  have big: "1 / 2 ^ 1022 \<le> (100::real) / 2 ^ 60"
    by (simp add: divide_simps)
  have xu: "x = 112 * u" by (simp add: x_def u_def)
  define d where "d = rnd (x / 1)"
  have d1: "111 * u \<le> d"
    using rnd_lower [of "112 / 2 ^ 60" x] big by (simp add: d_def x_def u_def)
  have d2: "\<bar>d\<bar> \<le> 113 * u"
    using rnd_upper [of "112 / 2 ^ 60" x] big by (simp add: d_def x_def u_def)
  define a where "a = rnd (d + 0)"
  have a1: "110 * u \<le> a"
    using rnd_lower [of "111 / 2 ^ 60" d] d1 big by (simp add: a_def u_def)
  have a2: "\<bar>a\<bar> \<le> 114 * u"
    using rnd_upper [of "113 / 2 ^ 60" d] d2 big by (simp add: a_def u_def)
  define b where "b = rnd (a * 2)"
  have a3: "220 / 2 ^ 60 \<le> a * 2" "\<bar>a * 2\<bar> \<le> 228 / 2 ^ 60"
    using a1 a2 by (simp_all add: u_def abs_mult)
  have b1: "219 * u \<le> b"
    using rnd_lower [of "220 / 2 ^ 60" "a * 2"] a3 big by (simp add: b_def u_def)
  have b2: "\<bar>b\<bar> \<le> 229 * u"
    using rnd_upper [of "228 / 2 ^ 60" "a * 2"] a3 big by (simp add: b_def u_def)
  have bpos: "0 \<le> b" using b1 by (simp add: u_def) 
  have p1: "657 * u \<le> b * float_pi"
  proof -
    have "219 * u * 3 \<le> b * float_pi"
      using b1 float_pi_ge by (intro mult_mono) (simp_all add: u_def)
    then show ?thesis by simp
  qed
  have p2: "\<bar>b * float_pi\<bar> \<le> 916 * u"
  proof -
    have "\<bar>b\<bar> * \<bar>float_pi\<bar> \<le> 229 * u * 4"
      using b2 float_pi_ge float_pi_le by (intro mult_mono) (simp_all add: u_def)
    then show ?thesis by (simp add: abs_mult)
  qed
  define c where "c = rnd (b * float_pi)"
  have c1: "656 * u \<le> c"
    using rnd_lower [of "657 / 2 ^ 60" "b * float_pi"] p1 big by (simp add: c_def u_def)
  have c2: "\<bar>c\<bar> \<le> 917 * u"
    using rnd_upper [of "916 / 2 ^ 60" "b * float_pi"] p2 big by (simp add: c_def u_def)
  have cpos: "0 \<le> c" using c1 by (simp add: u_def)
  have "c\<^sup>2 \<le> (917 * u)\<^sup>2" using c2 cpos by (intro power_mono) simp_all
  also have "\<dots> \<le> 2 * u" by (simp add: u_def power2_eq_square)
  finally have csq: "c\<^sup>2 / 2 \<le> u" by simp
  have s1: "655 * u \<le> sin c" using sin_small [OF cpos] csq c1 by linarith
  have s2: "\<bar>sin c\<bar> \<le> 917 * u" using abs_sin_x_le_abs_x [of c] c2 by linarith
  define s where "s = rnd (sin c)"
  have t1: "654 * u \<le> s"
    using rnd_lower [of "655 / 2 ^ 60" "sin c"] s1 big by (simp add: s_def u_def)
  have t2: "\<bar>s\<bar> \<le> 918 * u"
    using rnd_upper [of "917 / 2 ^ 60" "sin c"] s2 big by (simp add: s_def u_def)
  define g where "g = rnd (1 * s)"
  have g1: "653 * u \<le> g"
    using rnd_lower [of "654 / 2 ^ 60" s] t1 big by (simp add: g_def u_def)
  have g2: "\<bar>g\<bar> \<le> 919 * u"
    using rnd_upper [of "918 / 2 ^ 60" s] t2 big by (simp add: g_def u_def)
  define m where "m = rnd (g + 0)"
  have m1: "652 * u \<le> m"
    using rnd_lower [of "653 / 2 ^ 60" g] g1 big by (simp add: m_def u_def)
  have small: "1000 * u \<le> 2 ^ 1023" by (simp add: u_def)
  have "\<bar>x / 1\<bar> \<le> 2 ^ 1023" by (simp add: x_def)
  then have f1: "fdiv x 1 = Some d"
    unfolding fdiv_def d_def using fl_small [of "x / 1"] by simp
  have f2: "fadd d 0 = Some a"
    unfolding fadd_def a_def using d2 small by (intro fl_small) simp
  have f3: "fmul a 2 = Some b"
    unfolding fmul_def b_def using a2 small by (intro fl_small) simp
  have f4: "fmul b float_pi = Some c"
    unfolding fmul_def c_def using p2 small by (intro fl_small) simp
  have f5: "fsin c = Some s"
    unfolding fsin_def s_def using s2 small by (intro fl_small) simp
  have f6: "fmul 1 s = Some g"
    unfolding fmul_def g_def using t2 small by (intro fl_small) simp
  have f7: "fadd g 0 = Some m"
    unfolding fadd_def m_def using g2 small by (intro fl_small) simp
  have "sine_point 0 1 1 0 x = Some m"
    unfolding sine_point_def by (simp add: f1 f2 f3 f4 f5 f6 f7)
  then have "sine_point 0 1 1 0 (7 / 2 ^ 56) = Some m" unfolding x_def .
  moreover have "652 / 2 ^ 60 \<le> m" using m1 by (simp add: u_def)
  ultimately show ?thesis by blast
qed

lemma sine_point_at_one:
  "\<exists>m. sine_point 0 1 1 1 (7 / 2 ^ 56) = Some m \<and> \<bar>m\<bar> \<le> 515 / 2 ^ 60"
proof -
  define u :: real where "u = 1 / 2 ^ 60"
  define x :: real where "x = 7 / 2 ^ 56"
  have big: "1 / 2 ^ 1022 \<le> (100::real) / 2 ^ 60"
    by (simp add: divide_simps)
  define d where "d = rnd (x / 1)"
  have d0: "0 \<le> d" unfolding d_def by (rule rnd_nonneg) (simp add: x_def)
  have d2: "\<bar>d\<bar> \<le> 113 * u"
    using rnd_upper [of "112 / 2 ^ 60" x] big by (simp add: d_def x_def u_def)
  have d3: "d < 1 / 2 ^ 53" using d2 by (simp add: u_def)
  have a: "rnd (d + 1) = 1" by (rule rnd_absorb [OF d0 d3])
  have b: "rnd (1 * 2) = 2" using rnd_two by simp
  have c: "rnd (2 * float_pi) = 2 * float_pi" by (rule rnd_two_float_pi)
  have s2: "\<bar>sin (2 * float_pi)\<bar> \<le> 512 * u" using sin_two_float_pi by (simp add: u_def)
  define s where "s = rnd (sin (2 * float_pi))"
  have t2: "\<bar>s\<bar> \<le> 513 * u"
    using rnd_upper [of "512 / 2 ^ 60" "sin (2 * float_pi)"] s2 big by (simp add: s_def u_def)
  define g where "g = rnd (1 * s)"
  have g2: "\<bar>g\<bar> \<le> 514 * u"
    using rnd_upper [of "513 / 2 ^ 60" s] t2 big by (simp add: g_def u_def)
  define m where "m = rnd (g + 0)"
  have m2: "\<bar>m\<bar> \<le> 515 * u"
    using rnd_upper [of "514 / 2 ^ 60" g] g2 big by (simp add: m_def u_def)
  have small: "1000 * u \<le> 2 ^ 1023" by (simp add: u_def)
  have "\<bar>x / 1\<bar> \<le> 2 ^ 1023" by (simp add: x_def)
  then have f1: "fdiv x 1 = Some d"
    unfolding fdiv_def d_def using fl_small [of "x / 1"] by simp
  have f2: "fadd d 1 = Some 1"
    unfolding fadd_def using a by (simp add: fl_def max_float_def)
  have f3: "fmul 1 2 = Some 2"
    unfolding fmul_def using b by (simp add: fl_def max_float_def)
  have "\<bar>2 * float_pi\<bar> \<le> 2 ^ 1023" using float_pi_ge float_pi_le by simp
  then have f4: "fmul 2 float_pi = Some (2 * float_pi)"
    unfolding fmul_def using c fl_small [of "2 * float_pi"] by simp
  have f5: "fsin (2 * float_pi) = Some s"
    unfolding fsin_def s_def using s2 small by (intro fl_small) simp
  have f6: "fmul 1 s = Some g"
    unfolding fmul_def g_def using t2 small by (intro fl_small) simp
  have f7: "fadd g 0 = Some m"
    unfolding fadd_def m_def using g2 small by (intro fl_small) simp
  have "sine_point 0 1 1 1 x = Some m"
    unfolding sine_point_def by (simp add: f1 f2 f3 f4 f5 f6 f7)
  then have "sine_point 0 1 1 1 (7 / 2 ^ 56) = Some m" unfolding x_def .
  moreover have "\<bar>m\<bar> \<le> 515 / 2 ^ 60" using m2 by (simp add: u_def)
  ultimately show ?thesis by blast
qed

lemma elementwise_bound:
  assumes "\<And>x. x \<in> set xs \<Longrightarrow> \<exists>y. f x = Some y \<and> Q y"
  shows "\<exists>ys. elementwise f xs = Inr ys \<and> length ys = length xs \<and> (\<forall>y \<in> set ys. Q y)"
proof -
  obtain ys where ys: "elementwise f xs = Inr ys" "list_all2 (\<lambda>x y. Q y) xs ys"
    using elementwise_ex [of xs f "\<lambda>x y. Q y"] assms by blast
  have "length ys = length xs" using ys(2) by (simp add: list_all2_lengthD)
  moreover have "\<forall>y \<in> set ys. Q y"
    using ys(2) by (auto simp: list_all2_conv_all_nth in_set_conv_nth)
  ultimately show ?thesis using ys(1) by blast
qed

lemma elementwise_related:
  assumes "\<And>x. x \<in> set xs \<Longrightarrow> \<exists>y z. f x = Some y \<and> g x = Some z \<and> R y z"
  shows "\<exists>ys zs. elementwise f xs = Inr ys \<and> elementwise g xs = Inr zs \<and> list_all2 R ys zs"
  using assms
proof (induction xs)
  case Nil
  show ?case by (simp add: elementwise_Nil)
next
  case (Cons x xs)
  obtain y z where yz: "f x = Some y" "g x = Some z" "R y z" using Cons.prems [of x] by auto
  obtain ys zs where r: "elementwise f xs = Inr ys" "elementwise g xs = Inr zs" "list_all2 R ys zs"
    using Cons.IH Cons.prems by auto
  show ?case using yz r by (simp add: elementwise_Cons)
qed

lemma sine_formula_periodic: "sine_formula B A P (t0 + 1) x = sine_formula B A P t0 x"
proof -
  have "2 * pi * (x / P + (t0 + 1)) = 2 * pi * (x / P + t0) + 2 * pi"
    by (simp add: algebra_simps)
  then show ?thesis by (simp add: sine_formula_def)
qed

lemma sine_model_close:
  assumes t: "observation_times t" and r: "in_prior_range B A P t0"
  shows "agree_within (1 / 2 ^ 36) (sine_model t B A P (t0 + 1)) (sine_model t B A P t0)"
proof -
  have "\<exists>y z. sine_point B A P (t0 + 1) x = Some y \<and> sine_point B A P t0 x = Some z \<and>
           \<bar>y - z\<bar> \<le> 1 / 2 ^ 36" if "x \<in> set t" for x
  proof -
    have x: "\<bar>x\<bar> \<le> 5" using t that by (auto simp: observation_times_def list_all_iff)
    have h: "1 \<le> P" "\<bar>t0\<bar> \<le> 2" "\<bar>t0 + 1\<bar> \<le> 2" "\<bar>A\<bar> \<le> 128" "\<bar>B\<bar> \<le> 16"
      using r by (auto simp: in_prior_range_def)
    obtain y where y: "sine_point B A P (t0 + 1) x = Some y"
      "\<bar>y - sine_formula B A P (t0 + 1) x\<bar> \<le> 1 / 2 ^ 37"
      using sine_point_approx [OF x h(1) h(3) h(4) h(5)] by blast
    obtain z where z: "sine_point B A P t0 x = Some z"
      "\<bar>z - sine_formula B A P t0 x\<bar> \<le> 1 / 2 ^ 37"
      using sine_point_approx [OF x h(1) h(2) h(4) h(5)] by blast
    have "\<bar>y - z\<bar> \<le> 1 / 2 ^ 37 + 1 / 2 ^ 37"
      using y(2) z(2) unfolding sine_formula_periodic by linarith
    then have "\<bar>y - z\<bar> \<le> 1 / 2 ^ 36" by simp
    then show ?thesis using y(1) z(1) by blast
  qed
  then obtain ys zs where
    "elementwise (sine_point B A P (t0 + 1)) t = Inr ys"
    "elementwise (sine_point B A P t0) t = Inr zs"
    "list_all2 (\<lambda>y z. \<bar>y - z\<bar> \<le> 1 / 2 ^ 36) ys zs"
    using elementwise_related [of t "sine_point B A P (t0 + 1)" "sine_point B A P t0"
        "\<lambda>y z. \<bar>y - z\<bar> \<le> 1 / 2 ^ 36"] by blast
  then show ?thesis by (simp add: agree_within_def sine_model_pointwise)
qed

lemma sine_model_apart:
  assumes x: "\<bar>x\<bar> \<le> 5"
    and p: "1 \<le> P" "\<bar>t0\<bar> \<le> 2" "\<bar>A\<bar> \<le> 128" "\<bar>B\<bar> \<le> 16"
    and p': "1 \<le> P'" "\<bar>t0'\<bar> \<le> 2" "\<bar>A'\<bar> \<le> 128" "\<bar>B'\<bar> \<le> 16"
    and far: "1 \<le> \<bar>sine_formula B' A' P' t0' x - sine_formula B A P t0 x\<bar>"
  shows "\<not> agree_within (1 / 2 ^ 36) (sine_model [x] B' A' P' t0') (sine_model [x] B A P t0)"
proof -
  obtain y where y: "sine_point B' A' P' t0' x = Some y"
    "\<bar>y - sine_formula B' A' P' t0' x\<bar> \<le> 1 / 2 ^ 37"
    using sine_point_approx [OF x p'] by blast
  obtain z where z: "sine_point B A P t0 x = Some z"
    "\<bar>z - sine_formula B A P t0 x\<bar> \<le> 1 / 2 ^ 37"
    using sine_point_approx [OF x p] by blast
  have "1 - (1 / 2 ^ 37 + 1 / 2 ^ 37) \<le> \<bar>y - z\<bar>" using y(2) z(2) far by linarith
  then have "\<not> \<bar>y - z\<bar> \<le> 1 / 2 ^ 36" by simp
  then show ?thesis
    using y(1) z(1)
    by (simp add: agree_within_def sine_model_pointwise elementwise_Cons elementwise_Nil)
qed

lemma items_nonempty: "0 < length (items ord)"
  by (induction ord) simp_all

lemma covers_items:
  assumes "covers ord n"
  shows "length (items ord) = n" and "\<forall>i \<in> set (items ord). i < n"
proof -
  have "length (sort (items ord)) = length [0..<n]" using assms by (simp add: covers_def)
  then show "length (items ord) = n" by simp
  have "set (sort (items ord)) = set [0..<n]" using assms by (simp add: covers_def)
  then show "\<forall>i \<in> set (items ord). i < n" by auto
qed

lemma sum_in_order_bounded:
  assumes "\<forall>i \<in> set (items ord). i < length xs"
    and "\<forall>x \<in> set xs. 0 \<le> x \<and> x \<le> 2 ^ k"
    and "k + length (items ord) \<le> 1024"
  shows "\<exists>s. sum_in_order ord xs = Some s \<and> 0 \<le> s \<and> s \<le> 2 ^ (k + length (items ord) - 1)"
  using assms(1,3)
proof (induction ord)
  case (Item i)
  then have "xs ! i \<in> set xs" by simp
  then show ?case using assms(2) by simp
next
  case (Plus l r)
  obtain nl where nl: "length (items l) = Suc nl"
    using items_nonempty [of l] by (cases "length (items l)") simp_all
  obtain nr where nr: "length (items r) = Suc nr"
    using items_nonempty [of r] by (cases "length (items r)") simp_all
  obtain a where a: "sum_in_order l xs = Some a" "0 \<le> a" "a \<le> 2 ^ (k + nl)"
    using Plus.IH(1) Plus.prems by (auto simp: nl)
  obtain b where b: "sum_in_order r xs = Some b" "0 \<le> b" "b \<le> 2 ^ (k + nr)"
    using Plus.IH(2) Plus.prems by (auto simp: nr)
  have "(2::real) ^ (k + nl) \<le> 2 ^ (k + nl + nr)" by (intro power_increasing) simp_all
  moreover have "(2::real) ^ (k + nr) \<le> 2 ^ (k + nl + nr)" by (intro power_increasing) simp_all
  ultimately have "a + b \<le> 2 ^ (k + nl + nr) + 2 ^ (k + nl + nr)" using a(3) b(3) by linarith
  then have ab: "\<bar>a + b\<bar> \<le> 2 ^ Suc (k + nl + nr)" using a(2) b(2) by simp
  have e: "Suc (k + nl + nr) \<le> 1023" using Plus.prems(2) by (simp add: nl nr)
  have "fl (a + b) = Some (rnd (a + b))" and "\<bar>rnd (a + b)\<bar> \<le> 2 ^ Suc (k + nl + nr)"
    using fl_pow2 [OF e ab] by simp_all
  moreover have "0 \<le> rnd (a + b)" using a(2) b(2) by (intro rnd_nonneg) simp
  moreover have "k + length (items (Plus l r)) - 1 = Suc (k + nl + nr)" by (simp add: nl nr)
  ultimately show ?case using a(1) b(1) by (simp add: fadd_def nl nr add.assoc)
qed

lemma sine_point_bounded:
  assumes "\<bar>x\<bar> \<le> 5" and "in_prior_range B A P t0"
  shows "\<exists>m. sine_point B A P t0 x = Some m \<and> \<bar>m\<bar> \<le> 2 ^ 7"
proof -
  have h: "1 \<le> P" "\<bar>t0\<bar> \<le> 2" "\<bar>A\<bar> \<le> 128" "\<bar>B\<bar> \<le> 16" "\<bar>A\<bar> \<le> 100" "\<bar>B\<bar> \<le> 10"
    using assms(2) by (auto simp: in_prior_range_def)
  obtain m where m: "sine_point B A P t0 x = Some m"
    "\<bar>m - sine_formula B A P t0 x\<bar> \<le> 1 / 2 ^ 37"
    using sine_point_approx [OF assms(1) h(1-4)] by blast
  have "\<bar>A * sin (2 * pi * (x / P + t0))\<bar> \<le> 100 * 1"
    unfolding abs_mult using h(5) by (intro mult_mono) simp_all
  then have "\<bar>sine_formula B A P t0 x\<bar> \<le> 110"
    unfolding sine_formula_def using h(6) by linarith
  moreover have "(1::real) / 2 ^ 37 \<le> 1" by simp
  ultimately have "\<bar>m\<bar> \<le> 111" using m(2) by linarith
  then have "\<bar>m\<bar> \<le> 2 ^ 7" by simp
  then show ?thesis using m(1) by blast
qed

lemma log_likelihood_finite:
  assumes t: "observation_times t" and r: "in_prior_range B A P t0"
    and len: "length t = length y" "length y \<le> 500"
    and y: "list_all (\<lambda>x. \<bar>x\<bar> \<le> 2 ^ 200) y"
    and ord: "covers ord (length y)"
  shows "\<exists>v. log_likelihood t y ord [B, A, P, t0] = Inr v \<and> v \<le> 0 \<and> \<bar>v\<bar> \<le> max_float"
proof -
  have "\<exists>m. sine_point B A P t0 x = Some m \<and> \<bar>m\<bar> \<le> 2 ^ 7" if "x \<in> set t" for x
    using that t r by (intro sine_point_bounded) (auto simp: observation_times_def list_all_iff)
  then obtain ym where ym: "sine_model t B A P t0 = Inr ym" "length ym = length t"
    "\<forall>m \<in> set ym. \<bar>m\<bar> \<le> 2 ^ 7"
    unfolding sine_model_pointwise
    using elementwise_bound [of t "sine_point B A P t0" "\<lambda>m. \<bar>m\<bar> \<le> 2 ^ 7"] by blast
  have "\<exists>d. (case p of (x, y) \<Rightarrow> fsub x y) = Some d \<and> \<bar>d\<bar> \<le> 2 ^ 201"
    if "p \<in> set (zip ym y)" for p
  proof -
    obtain m yi where p: "p = (m, yi)" by (cases p)
    have "m \<in> set ym" "yi \<in> set y" using that p by (auto dest: set_zip_leftD set_zip_rightD)
    then have "\<bar>m\<bar> \<le> 2 ^ 7" "\<bar>yi\<bar> \<le> 2 ^ 200" using ym(3) y by (auto simp: list_all_iff)
    moreover have "(2::real) ^ 7 \<le> 2 ^ 200" by (intro power_increasing) simp_all
    ultimately have "\<bar>m - yi\<bar> \<le> 2 ^ 200 + 2 ^ 200" by linarith
    then have "\<bar>m - yi\<bar> \<le> 2 ^ 201" by simp
    then show ?thesis using fl_pow2 [of 201 "m - yi"] p by (simp add: fsub_def)
  qed
  then obtain d where d: "elementwise (\<lambda>(x, y). fsub x y) (zip ym y) = Inr d"
    "length d = length (zip ym y)" "\<forall>z \<in> set d. \<bar>z\<bar> \<le> 2 ^ 201"
    using elementwise_bound [of "zip ym y" "\<lambda>(x, y). fsub x y" "\<lambda>z. \<bar>z\<bar> \<le> 2 ^ 201"] by blast
  have sub: "subtract ym y = Inr d" using d(1) ym(2) len(1) by (simp add: subtract_def)
  have "\<exists>q. fdiv z yerr = Some q \<and> \<bar>q\<bar> \<le> 2 ^ 201" if "z \<in> set d" for z
    using that d(3) fl_pow2 [of 201 "z / 1"] by (simp add: fdiv_def yerr_def)
  then obtain q where q: "elementwise (\<lambda>x. fdiv x yerr) d = Inr q" "length q = length d"
    "\<forall>z \<in> set q. \<bar>z\<bar> \<le> 2 ^ 201"
    using elementwise_bound [of d "\<lambda>x. fdiv x yerr" "\<lambda>z. \<bar>z\<bar> \<le> 2 ^ 201"] by blast
  have "\<exists>w. fmul z z = Some w \<and> 0 \<le> w \<and> w \<le> 2 ^ 402" if "z \<in> set q" for z
  proof -
    have "\<bar>z\<bar> * \<bar>z\<bar> \<le> 2 ^ 201 * 2 ^ 201" using that q(3) by (intro mult_mono) simp_all
    then have "\<bar>z * z\<bar> \<le> 2 ^ 402" by (simp add: abs_mult flip: power_add)
    then have "fl (z * z) = Some (rnd (z * z))" "\<bar>rnd (z * z)\<bar> \<le> 2 ^ 402"
      using fl_pow2 [of 402 "z * z"] by simp_all
    moreover have "0 \<le> rnd (z * z)" by (intro rnd_nonneg) simp
    ultimately show ?thesis by (simp add: fmul_def)
  qed
  then obtain sq where sq: "elementwise (\<lambda>x. fmul x x) q = Inr sq" "length sq = length q"
    "\<forall>w \<in> set sq. 0 \<le> w \<and> w \<le> 2 ^ 402"
    using elementwise_bound [of q "\<lambda>x. fmul x x" "\<lambda>w. 0 \<le> w \<and> w \<le> 2 ^ 402"] by blast
  have lsq: "length sq = length y" using sq(2) q(2) d(2) ym(2) len(1) by simp
  have "\<exists>s. ndarray_sum ord sq = Inr s \<and> 0 \<le> s \<and> s \<le> 2 ^ 1000"
  proof (cases "sq = []")
    case True
    then show ?thesis by (simp add: ndarray_sum_def)
  next
    case False
    have n: "length (items ord) = length y" "\<forall>i \<in> set (items ord). i < length sq"
      using covers_items [OF ord] lsq by simp_all
    have "402 + length (items ord) \<le> 1024" using n(1) len(2) by simp
    then obtain s where s: "sum_in_order ord sq = Some s" "0 \<le> s"
      "s \<le> 2 ^ (402 + length (items ord) - 1)"
      using sum_in_order_bounded [OF n(2) sq(3)] by blast
    have "(2::real) ^ (402 + length (items ord) - 1) \<le> 2 ^ 1000"
      using n(1) len(2) by (intro power_increasing) simp_all
    then have "s \<le> 2 ^ 1000" using s(3) by linarith
    then show ?thesis using s(1,2) False by (simp add: ndarray_sum_def)
  qed
  then obtain s where s: "ndarray_sum ord sq = Inr s" "0 \<le> s" "s \<le> 2 ^ 1000" by blast
  have "\<bar>- 0.5 * s\<bar> \<le> 2 ^ 1000" using s(2,3) by simp
  then have "fl (- 0.5 * s) = Some (rnd (- 0.5 * s))"
    using fl_pow2 [of 1000 "- 0.5 * s"] by simp
  moreover have "rnd (- 0.5 * s) \<le> 0" using s(2) by (intro rnd_nonpos) simp
  moreover have "\<bar>rnd (- 0.5 * s)\<bar> \<le> max_float"
    using calculation(1) by (simp add: fl_def split: if_splits)
  ultimately have "log_likelihood t y ord [B, A, P, t0] = Inr (rnd (- 0.5 * s)) \<and>
      rnd (- 0.5 * s) \<le> 0 \<and> \<bar>rnd (- 0.5 * s)\<bar> \<le> max_float"
    using ym(1) sub q(1) sq(1) s(1) by (simp add: log_likelihood_def and_then_def fmul_def)
  then show ?thesis by blast
qed

lemma true_divide_defined:
  assumes "1 \<le> P" and "list_all (\<lambda>x. \<bar>x\<bar> \<le> max_float) t"
  shows "\<exists>q. true_divide t P = Inr q"
proof -
  have "\<exists>d. fdiv x P = Some d \<and> True" if "x \<in> set t" for x
  proof -
    have "\<bar>x / P\<bar> = \<bar>x\<bar> / P" using assms(1) by simp
    also have "\<dots> \<le> \<bar>x\<bar> / 1" using assms(1) by (intro divide_left_mono) simp_all
    finally have "\<bar>x / P\<bar> \<le> max_float" using assms(2) that by (auto simp: list_all_iff)
    then show ?thesis using assms(1) by (simp add: fdiv_def fl_Some)
  qed
  then show ?thesis
    unfolding true_divide_def
    using elementwise_bound [of t "\<lambda>x. fdiv x P" "\<lambda>d. True"] by blast
qed

text \<open>
  The two ways to a non-finite result, at concrete inputs: a product beyond the largest
  double, and a period of zero.
\<close>

lemma rnd_pow2: "rnd (2 ^ k) = 2 ^ k"
proof -
  have b: "binade (2 ^ k) = int k"
    by (rule binade_eq) (simp_all add: powr_realpow powr_add)
  have "(2::real) ^ k = of_int 1 * 2 powr real_of_int (int k)" by (simp add: powr_realpow)
  then show ?thesis by (rule rnd_exact) (simp add: b)
qed

lemma sine_model_overflow: "sine_model [2 ^ 1023] 0 1 1 0 = Inl NonFinite"
proof -
  define x :: real where "x = 2 ^ 1023"
  have pos: "0 \<le> x" by (simp add: x_def)
  have m: "x \<le> max_float" "\<not> x * 2 \<le> max_float"
    by (simp_all add: x_def max_float_def)
  have r1: "rnd x = x" unfolding x_def by (rule rnd_pow2)
  have "x * 2 = 2 ^ 1024" by (simp add: x_def)
  then have r2: "rnd (x * 2) = x * 2" using rnd_pow2 [of 1024] by simp
  have f1: "fdiv x 1 = Some x" using m(1) pos by (simp add: fdiv_def fl_def r1)
  have f2: "fadd x 0 = Some x" using m(1) pos by (simp add: fadd_def fl_def r1)
  have f3: "fmul x 2 = None" using m(2) pos by (simp add: fmul_def fl_def r2)
  have "sine_point 0 1 1 0 x = None"
    unfolding sine_point_def by (simp add: f1 f2 f3)
  then have "sine_model [x] 0 1 1 0 = Inl NonFinite"
    by (simp add: sine_model_pointwise elementwise_Cons)
  then show ?thesis unfolding x_def .
qed

lemma sine_model_zero_period: "sine_model (x # t) B A 0 t0 = Inl NonFinite"
  by (simp add: sine_model_pointwise elementwise_Cons sine_point_def fdiv_def)

subsection \<open>The claims about the notebook's functions\<close>

text \<open>
  Claim C9. \<open>prior_transform\<close> does not change its argument: called on a reference \<open>cube\<close> to
  a point of \<open>[0,1]^4\<close>, it returns a reference to another array, the array at \<open>cube\<close> holds
  what it held before, and so does every array that existed before the call (the heap after
  the call is the old heap with the copy appended).
\<close>

theorem prior_transform_keeps_argument:
  assumes "cube < length h" and "in_unit_cube 4 (h ! cube)"
  shows "\<exists>p h'. prior_transform h cube = (Inr p, h') \<and> p \<noteq> cube \<and>
           h' ! cube = h ! cube \<and> take (length h) h' = h"
proof -
  have l: "length (h ! cube) = 4" using assms(2) by (simp add: in_unit_cube_def)
  have ne: "length h \<noteq> cube" using assms(1) by simp
  show ?thesis
    unfolding prior_transform_run [OF assms(1) l]
    using assms(1) ne by (simp add: nth_append)
qed

theorem prior_transform_keeps_argument_witness:
  "\<exists>p h'. prior_transform [[0, 1 / 2, 1, 1 / 4]] 0 = (Inr p, h') \<and> p \<noteq> 0 \<and>
     h' ! 0 = [[0, 1 / 2, 1, 1 / 4]] ! 0 \<and>
     take (length [[0, 1 / 2, 1, 1 / 4 :: real]]) h' = [[0, 1 / 2, 1, 1 / 4]]"
proof -
  have a: "0 < length [[0, 1 / 2, 1, 1 / 4 :: real]]" by simp
  have b: "in_unit_cube 4 ([[0, 1 / 2, 1, 1 / 4]] ! 0)" by (simp add: in_unit_cube_def)
  show ?thesis by (rule prior_transform_keeps_argument [OF a b])
qed

text \<open>
  Claim C2. \<open>prior_transform\<close> is total and deterministic on \<open>[0,1]^4\<close>: for a cube in
  \<open>[0,1]^4\<close> it raises nothing and returns an array holding
  \<open>(cube[0]*20-10, 10**(cube[1]*4-2), 10**(cube[2]*2), cube[3])\<close>, each component within
  finite bounds, and a second call on the same argument (in the heap the first call left)
  returns an array with the same contents.
\<close>

theorem prior_transform_total_deterministic:
  assumes "cube < length h" and "in_unit_cube 4 (h ! cube)"
  shows "\<exists>p h' q h''.
      prior_transform h cube = (Inr p, h') \<and>
      h' ! p = [(h ! cube) ! 0 * 20 - 10, 10 powr ((h ! cube) ! 1 * 4 - 2),
                10 powr ((h ! cube) ! 2 * 2), (h ! cube) ! 3] \<and>
      - 10 \<le> h' ! p ! 0 \<and> h' ! p ! 0 \<le> 10 \<and>
      1 / 100 \<le> h' ! p ! 1 \<and> h' ! p ! 1 \<le> 100 \<and>
      1 \<le> h' ! p ! 2 \<and> h' ! p ! 2 \<le> 100 \<and>
      0 \<le> h' ! p ! 3 \<and> h' ! p ! 3 \<le> 1 \<and>
      prior_transform h' cube = (Inr q, h'') \<and> h'' ! q = h' ! p"
proof -
  let ?c = "h ! cube"
  let ?v = "[?c ! 0 * 20 - 10, 10 powr (?c ! 1 * 4 - 2), 10 powr (?c ! 2 * 2), ?c ! 3]"
  let ?h' = "h @ [?v]"
  have l: "length ?c = 4" using assms(2) by (simp add: in_unit_cube_def)
  have r1: "prior_transform h cube = (Inr (length h), ?h')"
    by (rule prior_transform_run [OF assms(1) l])
  have a': "cube < length ?h'" using assms(1) by simp
  have c': "?h' ! cube = ?c" using assms(1) by (simp add: nth_append)
  have l': "length (?h' ! cube) = 4" using l c' by simp
  have r2: "prior_transform ?h' cube = (Inr (length ?h'), ?h' @ [?v])"
    using prior_transform_run [OF a' l'] unfolding c' .
  have v1: "?h' ! length h = ?v" by simp
  have v2: "(?h' @ [?v]) ! length ?h' = ?h' ! length h" by (simp only: nth_append_length)
  note b0 = unit_cube_nth [OF assms(2), of 0]
  note b1 = unit_cube_nth [OF assms(2), of 1]
  note b2 = unit_cube_nth [OF assms(2), of 2]
  note b3 = unit_cube_nth [OF assms(2), of 3]
  have p0: "- 10 \<le> ?h' ! length h ! 0" "?h' ! length h ! 0 \<le> 10" using b0 by simp_all
  have p1: "1 / 100 \<le> ?h' ! length h ! 1" "?h' ! length h ! 1 \<le> 100"
    using amplitude_bounds [of "?c ! 1"] b1 by simp_all
  have p2: "1 \<le> ?h' ! length h ! 2" "?h' ! length h ! 2 \<le> 100"
    using period_bounds [of "?c ! 2"] b2 by simp_all
  have p3: "0 \<le> ?h' ! length h ! 3" "?h' ! length h ! 3 \<le> 1" using b3 by simp_all
  show ?thesis
    by (intro exI conjI) (rule r1 v1 p0 p1 p2 p3 r2 v2)+
qed

theorem prior_transform_total_deterministic_witness:
  "\<exists>p h' q h''.
      prior_transform [[0, 1 / 2, 1, 1 / 4]] 0 = (Inr p, h') \<and>
      h' ! p = [- 10, 1, 100, 1 / 4] \<and>
      prior_transform h' 0 = (Inr q, h'') \<and> h'' ! q = h' ! p"
proof -
  have a: "0 < length [[0, 1 / 2, 1, 1 / 4 :: real]]" by simp
  have b: "in_unit_cube 4 ([[0, 1 / 2, 1, 1 / 4]] ! 0)" by (simp add: in_unit_cube_def)
  from prior_transform_total_deterministic [OF a b]
  obtain p h' q h'' where r:
    "prior_transform [[0, 1 / 2, 1, 1 / 4]] 0 = (Inr p, h')"
    "h' ! p = [[[0, 1 / 2, 1, 1 / 4]] ! 0 ! 0 * 20 - 10,
               10 powr ([[0, 1 / 2, 1, 1 / 4]] ! 0 ! 1 * 4 - 2),
               10 powr ([[0, 1 / 2, 1, 1 / 4]] ! 0 ! 2 * 2), [[0, 1 / 2, 1, 1 / 4]] ! 0 ! 3]"
    "prior_transform h' 0 = (Inr q, h'')" "h'' ! q = h' ! p"
    by blast
  have "h' ! p = [- 10, 1, 100, 1 / 4]" using r(2) by simp
  with r(1,3,4) show ?thesis by blast
qed


text \<open>
  Claim C1. For every cube in \<open>[0,1]^4\<close> the pipeline
  \<open>log_likelihood(prior_transform(cube))\<close> returns a finite value: no operation of
  \<open>sine_model\<close>, of the residuals, of their squares or of their sum overflows or divides by
  zero, in whatever order the sum is taken, and the value is a double that is at most 0.
  The observations are as the notebook builds them: times in \<open>[0, 5]\<close>, as many values \<open>y\<close>
  as times (at most 500), each of magnitude at most \<open>2^200\<close>.
\<close>

theorem pipeline_finite:
  assumes "cube < length h" and "in_unit_cube 4 (h ! cube)"
    and "observation_times t" and "length t = length y" and "length y \<le> 500"
    and "list_all (\<lambda>x. \<bar>x\<bar> \<le> 2 ^ 200) y" and "covers ord (length y)"
  shows "\<exists>p h' v. prior_transform h cube = (Inr p, h') \<and>
           log_likelihood t y ord (h' ! p) = Inr v \<and> v \<le> 0 \<and> \<bar>v\<bar> \<le> max_float"
proof -
  let ?c = "h ! cube"
  let ?B = "?c ! 0 * 20 - 10" and ?A = "10 powr (?c ! 1 * 4 - 2)"
  let ?P = "10 powr (?c ! 2 * 2)" and ?t0 = "?c ! 3"
  have l: "length ?c = 4" using assms(2) by (simp add: in_unit_cube_def)
  have r: "prior_transform h cube = (Inr (length h), h @ [[?B, ?A, ?P, ?t0]])"
    by (rule prior_transform_run [OF assms(1) l])
  have "in_prior_range ?B ?A ?P ?t0" by (rule unit_cube_prior_range [OF assms(2)])
  then obtain v where v: "log_likelihood t y ord [?B, ?A, ?P, ?t0] = Inr v" "v \<le> 0"
    "\<bar>v\<bar> \<le> max_float"
    using log_likelihood_finite [OF assms(3) _ assms(4-7)] by blast
  have ll: "log_likelihood t y ord ((h @ [[?B, ?A, ?P, ?t0]]) ! length h) = Inr v"
    using v(1) by simp
  show ?thesis
    by (intro exI conjI) (rule r ll v(2) v(3))+
qed

theorem pipeline_finite_witness:
  "\<exists>p h' v. prior_transform [[0, 1 / 2, 1, 1 / 4]] 0 = (Inr p, h') \<and>
           log_likelihood [0, 3] [1, 2] (Plus (Item 0) (Item 1)) (h' ! p) = Inr v \<and>
           v \<le> 0 \<and> \<bar>v\<bar> \<le> max_float"
proof -
  have a: "0 < length [[0, 1 / 2, 1, 1 / 4 :: real]]" by simp
  have b: "in_unit_cube 4 ([[0, 1 / 2, 1, 1 / 4]] ! 0)" by (simp add: in_unit_cube_def)
  have c: "observation_times [0, 3]" by (simp add: observation_times_def)
  have d: "length [0, 3 :: real] = length [1, 2 :: real]" by simp
  have e: "length [1, 2 :: real] \<le> 500" by simp
  have f: "list_all (\<lambda>x. \<bar>x\<bar> \<le> 2 ^ 200) [1, 2 :: real]" by simp
  have "[0..<2] = [0, 1]" by (simp add: upt_rec)
  then have g: "covers (Plus (Item 0) (Item 1)) (length [1, 2 :: real])"
    by (simp add: covers_def)
  show ?thesis by (rule pipeline_finite [OF a b c d e f g])
qed

text \<open>
  Claim C10. For every cube in \<open>[0,1]^4\<close> the period component of
  \<open>prior_transform(cube)\<close> is \<open>10**(cube[2]*2)\<close>; it lies in \<open>[1, 100]\<close>, so it is strictly
  positive and the division \<open>t / P\<close> of \<open>sine_model\<close> has a finite result for every array of
  doubles \<open>t\<close>. The range is not the "0.3 to 30" of the source comment: some cube gives a
  period above 30 (and none gives one below 1).
\<close>

theorem period_range:
  "(\<forall>h cube. cube < length h \<and> in_unit_cube 4 (h ! cube) \<longrightarrow>
      (\<exists>p h'. prior_transform h cube = (Inr p, h') \<and>
         h' ! p ! 2 = 10 powr ((h ! cube) ! 2 * 2) \<and>
         1 \<le> h' ! p ! 2 \<and> h' ! p ! 2 \<le> 100 \<and> 0 < h' ! p ! 2 \<and>
         (\<forall>t. list_all (\<lambda>x. \<bar>x\<bar> \<le> max_float) t \<longrightarrow>
              (\<exists>q. true_divide t (h' ! p ! 2) = Inr q)))) \<and>
   (\<exists>c p h'. in_unit_cube 4 c \<and> prior_transform [c] 0 = (Inr p, h') \<and> 30 < h' ! p ! 2)"
proof (intro conjI allI impI)
  fix h :: heap and cube
  assume "cube < length h \<and> in_unit_cube 4 (h ! cube)"
  then have a: "cube < length h" and u: "in_unit_cube 4 (h ! cube)" by simp_all
  let ?c = "h ! cube"
  let ?v = "[?c ! 0 * 20 - 10, 10 powr (?c ! 1 * 4 - 2), 10 powr (?c ! 2 * 2), ?c ! 3]"
  have l: "length ?c = 4" using u by (simp add: in_unit_cube_def)
  have r: "prior_transform h cube = (Inr (length h), h @ [?v])"
    by (rule prior_transform_run [OF a l])
  have b: "1 \<le> 10 powr (?c ! 2 * 2)" "10 powr (?c ! 2 * 2) \<le> 100"
    using period_bounds [of "?c ! 2"] unit_cube_nth [OF u, of 2] by simp_all
  have d: "\<forall>t. list_all (\<lambda>x. \<bar>x\<bar> \<le> max_float) t \<longrightarrow>
      (\<exists>q. true_divide t (10 powr (?c ! 2 * 2)) = Inr q)"
    using true_divide_defined [OF b(1)] by blast
  show "\<exists>p h'. prior_transform h cube = (Inr p, h') \<and>
         h' ! p ! 2 = 10 powr ((h ! cube) ! 2 * 2) \<and>
         1 \<le> h' ! p ! 2 \<and> h' ! p ! 2 \<le> 100 \<and> 0 < h' ! p ! 2 \<and>
         (\<forall>t. list_all (\<lambda>x. \<bar>x\<bar> \<le> max_float) t \<longrightarrow>
              (\<exists>q. true_divide t (h' ! p ! 2) = Inr q))"
    unfolding r using b d by simp
next
  have u: "in_unit_cube 4 [0, 0, 1, 0]" by (simp add: in_unit_cube_def)
  have r: "prior_transform [[0, 0, 1, 0]] 0 = (Inr 1, [[0, 0, 1, 0], [- 10, 10 powr (- 2), 100, 0]])"
    using prior_transform_run [of 0 "[[0, 0, 1, 0]]"] by simp
  have "(30::real) < [[0, 0, 1, 0], [- 10, 10 powr (- 2), 100, 0]] ! 1 ! 2" by simp
  with u r show "\<exists>c p h'. in_unit_cube 4 c \<and> prior_transform [c] 0 = (Inr p, h') \<and> 30 < h' ! p ! 2"
    by blast
qed

theorem period_range_witness:
  "\<exists>p h'. prior_transform [[0, 1 / 2, 1 / 2, 1 / 4]] 0 = (Inr p, h') \<and>
      h' ! p ! 2 = 10 \<and> (\<exists>q. true_divide [0, 5] (h' ! p ! 2) = Inr q)"
proof -
  have "0 < length [[0, 1 / 2, 1 / 2, 1 / 4 :: real]] \<and>
        in_unit_cube 4 ([[0, 1 / 2, 1 / 2, 1 / 4]] ! 0)"
    by (simp add: in_unit_cube_def)
  with period_range obtain p h' where
    "prior_transform [[0, 1 / 2, 1 / 2, 1 / 4]] 0 = (Inr p, h')"
    "h' ! p ! 2 = 10 powr ([[0, 1 / 2, 1 / 2, 1 / 4]] ! 0 ! 2 * 2)"
    "\<forall>t. list_all (\<lambda>x. \<bar>x\<bar> \<le> max_float) t \<longrightarrow> (\<exists>q. true_divide t (h' ! p ! 2) = Inr q)"
    by blast
  moreover have "10 powr ([[0, 1 / 2, 1 / 2, 1 / 4]] ! 0 ! 2 * 2) = (10::real)" by simp
  moreover have "list_all (\<lambda>x. \<bar>x\<bar> \<le> max_float) [0, 5]" by (simp add: max_float_def)
  ultimately show ?thesis by metis
qed

text \<open>
  Claim C3, as stated: \<open>sine_model(t, B, A, P, t0 + 1) = sine_model(t, B, A, P, t0)\<close> for
  every \<open>t\<close>, \<open>B\<close>, \<open>A\<close>, \<open>t0\<close> and nonzero \<open>P\<close>. In float64 this fails: at \<open>t = [7 * 2^-56]\<close>,
  \<open>B = 0\<close>, \<open>A = 1\<close>, \<open>P = 1\<close>, \<open>t0 = 0\<close> the sum \<open>t / P + 1\<close> rounds to 1 and the result is the
  rounded \<open>sin(2 * numpy.pi)\<close>, of magnitude at most \<open>515 * 2^-60\<close>, while at \<open>t0 = 0\<close> the
  result is at least \<open>652 * 2^-60\<close>.
\<close>

theorem sine_model_not_exactly_periodic:
  "sine_model [7 / 2 ^ 56] 0 1 1 (0 + 1) \<noteq> sine_model [7 / 2 ^ 56] 0 1 1 0"
proof -
  obtain m0 where m0: "sine_point 0 1 1 0 (7 / 2 ^ 56) = Some m0" "652 / 2 ^ 60 \<le> m0"
    using sine_point_at_zero by blast
  obtain m1 where m1: "sine_point 0 1 1 1 (7 / 2 ^ 56) = Some m1" "\<bar>m1\<bar> \<le> 515 / 2 ^ 60"
    using sine_point_at_one by blast
  have "m1 < m0" using m0(2) m1(2) by simp
  then show ?thesis
    using m0(1) m1(1) by (simp add: sine_model_pointwise elementwise_Cons elementwise_Nil)
qed

text \<open>
  Claim C3, amended. For observation times in \<open>[0, 5]\<close> and parameters in the range of the
  prior, \<open>sine_model(t, B, A, P, t0 + 1)\<close> and \<open>sine_model(t, B, A, P, t0)\<close> are arrays of
  finite values that agree within \<open>2^-36\<close> at every position: the model is 1-periodic in
  \<open>t0\<close> up to rounding. It is not so in \<open>B\<close>, \<open>A\<close> or \<open>P\<close>. So the mask \<open>wrapped_params\<close> is true
  exactly at the parameters the model is 1-periodic in, up to rounding.
\<close>

theorem sine_model_wrapped_t0:
  "wrapped_params ! 0 =
     (\<forall>t B A P t0. observation_times t \<and> in_prior_range B A P t0 \<longrightarrow>
        agree_within (1 / 2 ^ 36) (sine_model t (B + 1) A P t0) (sine_model t B A P t0)) \<and>
   wrapped_params ! 1 =
     (\<forall>t B A P t0. observation_times t \<and> in_prior_range B A P t0 \<longrightarrow>
        agree_within (1 / 2 ^ 36) (sine_model t B (A + 1) P t0) (sine_model t B A P t0)) \<and>
   wrapped_params ! 2 =
     (\<forall>t B A P t0. observation_times t \<and> in_prior_range B A P t0 \<longrightarrow>
        agree_within (1 / 2 ^ 36) (sine_model t B A (P + 1) t0) (sine_model t B A P t0)) \<and>
   wrapped_params ! 3 =
     (\<forall>t B A P t0. observation_times t \<and> in_prior_range B A P t0 \<longrightarrow>
        agree_within (1 / 2 ^ 36) (sine_model t B A P (t0 + 1)) (sine_model t B A P t0))"
proof -
  have r: "in_prior_range 0 1 1 0" by (simp add: in_prior_range_def)
  have nB: "\<not> agree_within (1 / 2 ^ 36) (sine_model [0] (0 + 1) 1 1 0) (sine_model [0] 0 1 1 0)"
    by (rule sine_model_apart) (simp_all add: sine_formula_def)
  have nA: "\<not> agree_within (1 / 2 ^ 36) (sine_model [1 / 4] 0 (1 + 1) 1 0) (sine_model [1 / 4] 0 1 1 0)"
    by (rule sine_model_apart) (simp_all add: sine_formula_def)
  have nP: "\<not> agree_within (1 / 2 ^ 36) (sine_model [1 / 2] 0 1 (1 + 1) 0) (sine_model [1 / 2] 0 1 1 0)"
    by (rule sine_model_apart) (simp_all add: sine_formula_def)
  have t: "observation_times [0]" "observation_times [1 / 4]" "observation_times [1 / 2]"
    by (simp_all add: observation_times_def)
  have fB: "\<not> (\<forall>t B A P t0. observation_times t \<and> in_prior_range B A P t0 \<longrightarrow>
        agree_within (1 / 2 ^ 36) (sine_model t (B + 1) A P t0) (sine_model t B A P t0))"
    using nB r t(1) by blast
  have fA: "\<not> (\<forall>t B A P t0. observation_times t \<and> in_prior_range B A P t0 \<longrightarrow>
        agree_within (1 / 2 ^ 36) (sine_model t B (A + 1) P t0) (sine_model t B A P t0))"
    using nA r t(2) by blast
  have fP: "\<not> (\<forall>t B A P t0. observation_times t \<and> in_prior_range B A P t0 \<longrightarrow>
        agree_within (1 / 2 ^ 36) (sine_model t B A (P + 1) t0) (sine_model t B A P t0))"
    using nP r t(3) by blast
  have per: "\<forall>t B A P t0. observation_times t \<and> in_prior_range B A P t0 \<longrightarrow>
        agree_within (1 / 2 ^ 36) (sine_model t B A P (t0 + 1)) (sine_model t B A P t0)"
    using sine_model_close by blast
  show ?thesis using fB fA fP per by (simp add: wrapped_params_def)
qed

theorem sine_model_wrapped_t0_witness:
  "agree_within (1 / 2 ^ 36)
     (sine_model [0, 1 / 2, 3] 1 2 3 (1 / 4 + 1)) (sine_model [0, 1 / 2, 3] 1 2 3 (1 / 4))"
proof -
  have "wrapped_params ! 3" by (simp add: wrapped_params_def)
  with sine_model_wrapped_t0 have
    "\<forall>t B A P t0. observation_times t \<and> in_prior_range B A P t0 \<longrightarrow>
        agree_within (1 / 2 ^ 36) (sine_model t B A P (t0 + 1)) (sine_model t B A P t0)"
    by simp
  moreover have "observation_times [0, 1 / 2, 3]" by (simp add: observation_times_def)
  moreover have "in_prior_range 1 2 3 (1 / 4)" by (simp add: in_prior_range_def)
  ultimately show ?thesis by blast
qed

section \<open>Properties of the modelled sampler\<close>


lemma worst_le:
  assumes "p \<in> set ps"
  shows "point_log_likelihood (worst ps) \<le> point_log_likelihood p"
proof -
  have ne: "ps \<noteq> []" using assms by auto
  have "point_log_likelihood (worst ps) = Min (point_log_likelihood ` set ps)"
    unfolding worst_def by (rule f_arg_min_list_f [OF ne])
  also have "\<dots> \<le> point_log_likelihood p" using assms by simp
  finally show ?thesis .
qed

lemma threshold_remove_worst:
  "threshold ((remove_worst s)\<lparr>live_points := ps\<rparr>) =
     Some (point_log_likelihood (worst (live_points s)))"
  by (simp add: threshold_def remove_worst_def Let_def)

lemma live_remove_worst: "live_points (remove_worst s) = remove1 (worst (live_points s)) (live_points s)"
  by (simp add: remove_worst_def Let_def)

lemma phase_remove_worst: "phase (remove_worst s) = phase s"
  by (simp add: remove_worst_def Let_def)

lemma volume_remove_worst:
  "log_volume_estimate (remove_worst s) = log_volume_estimate s - 1 / real (length (live_points s))"
  by (simp add: remove_worst_def Let_def)

lemma dead_remove_worst: "length (dead_points (remove_worst s)) = Suc (length (dead_points s))"
  by (simp add: remove_worst_def Let_def)

lemma threshold_Some:
  "threshold s = Some L \<longleftrightarrow>
     dead_points s \<noteq> [] \<and> L = point_log_likelihood (dead (last (dead_points s)))"
  by (auto simp: threshold_def)

lemma step_invariant:
  assumes "step cfg env s s'"
    and "phase s = INITIALIZING \<longrightarrow> dead_points s = []"
    and "\<forall>L. threshold s = Some L \<longrightarrow> (\<forall>p \<in> set (live_points s). L \<le> point_log_likelihood p)"
  shows "(phase s' = INITIALIZING \<longrightarrow> dead_points s' = []) \<and>
         (\<forall>L. threshold s' = Some L \<longrightarrow> (\<forall>p \<in> set (live_points s'). L \<le> point_log_likelihood p))"
  using assms
proof (induction rule: step.induct)
  case (draw s p)
  then show ?case by (simp add: threshold_Some)
next
  case (sample s q)
  have "point_log_likelihood (worst (live_points s)) \<le> point_log_likelihood p"
    if "p \<in> set (remove1 (worst (live_points s)) (live_points s))" for p
    using that worst_le [of p "live_points s"] by (meson notin_set_remove1)
  with sample show ?case
    by (simp add: threshold_remove_worst live_remove_worst phase_remove_worst less_imp_le)
next
  case (expand_add s q)
  then show ?case by (auto simp: threshold_Some threshold_def)
qed (simp_all add: threshold_Some)

lemma reachable_invariant:
  assumes "reachable cfg env s"
  shows "(phase s = INITIALIZING \<longrightarrow> dead_points s = []) \<and>
         (\<forall>L. threshold s = Some L \<longrightarrow> (\<forall>p \<in> set (live_points s). L \<le> point_log_likelihood p))"
  using assms unfolding reachable_def
proof (induction rule: rtranclp_induct)
  case base
  show ?case by (simp add: init_state_def threshold_def)
next
  case (step s s')
  then show ?case using step_invariant by blast
qed

lemma reachable_step:
  "reachable cfg env s \<Longrightarrow> step cfg env s s' \<Longrightarrow> reachable cfg env s'"
  unfolding reachable_def by (rule rtranclp.rtrancl_into_rtrancl)

lemma reachable_init: "reachable cfg env init_state"
  unfolding reachable_def by (rule rtranclp.rtrancl_refl)

lemma reachable_draws:
  "n \<le> min_num_live_points cfg \<Longrightarrow>
   reachable cfg env (init_state\<lparr>live_points := replicate n p\<rparr>)"
proof (induction n)
  case 0
  have "init_state\<lparr>live_points := replicate 0 p\<rparr> = init_state"
    by (simp add: init_state_def)
  then show ?case using reachable_init by simp
next
  case (Suc n)
  let ?s = "init_state\<lparr>live_points := replicate n p\<rparr>"
  have r: "reachable cfg env ?s" using Suc by simp
  have "step cfg env ?s (?s\<lparr>live_points := live_points ?s @ [p]\<rparr>)"
    using Suc.prems by (intro step.draw) (simp_all add: init_state_def)
  moreover have "?s\<lparr>live_points := live_points ?s @ [p]\<rparr> =
      init_state\<lparr>live_points := replicate (Suc n) p\<rparr>"
    by (simp add: replicate_append_same)
  ultimately show ?case using reachable_step [OF r] by simp
qed

lemma reachable_sampling:
  "reachable cfg env
     (init_state\<lparr>live_points := replicate (min_num_live_points cfg) p, phase := SAMPLING\<rparr>)"
proof -
  let ?s = "init_state\<lparr>live_points := replicate (min_num_live_points cfg) p\<rparr>"
  have r: "reachable cfg env ?s" by (rule reachable_draws) simp
  have "step cfg env ?s (?s\<lparr>phase := SAMPLING\<rparr>)"
    by (intro step.start) (simp_all add: init_state_def)
  then show ?thesis using reachable_step [OF r] by simp
qed



lemma worst_replicate: "0 < n \<Longrightarrow> worst (replicate n p) = p"
proof (induction n)
  case 0
  then show ?case by simp
next
  case (Suc n)
  show ?case
  proof (cases n)
    case 0
    then show ?thesis by (simp add: worst_def)
  next
    case (Suc k)
    then have "worst (replicate n p) = p" using Suc.IH by simp
    then show ?thesis using Suc by (simp add: worst_def Let_def)
  qed
qed

lemma first_removal:
  assumes "min_num_live_points cfg = Suc n"
    and "point_log_likelihood p < point_log_likelihood q"
    and "\<not> stopping_rule cfg
          (remaining_log_evidence
             (init_state\<lparr>live_points := replicate (Suc n) p, phase := SAMPLING\<rparr>))
          (ess env (init_state\<lparr>live_points := replicate (Suc n) p, phase := SAMPLING\<rparr>))
          (Suc n)"
  shows "step cfg env (init_state\<lparr>live_points := replicate (Suc n) p, phase := SAMPLING\<rparr>)
           ((remove_worst (init_state\<lparr>live_points := replicate (Suc n) p, phase := SAMPLING\<rparr>))
              \<lparr>live_points := replicate n p @ [q]\<rparr>)"
    and "reachable cfg env
           ((remove_worst (init_state\<lparr>live_points := replicate (Suc n) p, phase := SAMPLING\<rparr>))
              \<lparr>live_points := replicate n p @ [q]\<rparr>)"
proof -
  let ?s = "init_state\<lparr>live_points := replicate (Suc n) p, phase := SAMPLING\<rparr>"
  have r: "reachable cfg env ?s"
    using reachable_sampling [of cfg env p] by (simp only: assms(1))
  have w': "worst (p # replicate n p) = p" using worst_replicate [of "Suc n" p] by simp
  have w: "worst (live_points ?s) = p" by (simp add: w')
  have l: "live_points (remove_worst ?s) @ [q] = replicate n p @ [q]"
    by (simp add: live_remove_worst w')
  have "step cfg env ?s ((remove_worst ?s)\<lparr>live_points := live_points (remove_worst ?s) @ [q]\<rparr>)"
  proof (rule step.sample)
    show "phase ?s = SAMPLING" by simp
    show "live_points ?s \<noteq> []" by simp
    show "\<not> stopping_rule cfg (remaining_log_evidence ?s) (ess env ?s) (length (live_points ?s))"
      using assms(3) by simp
    show "point_log_likelihood (worst (live_points ?s)) < point_log_likelihood q"
      using assms(2) by (simp only: w)
  qed
  then show s: "step cfg env ?s ((remove_worst ?s)\<lparr>live_points := replicate n p @ [q]\<rparr>)"
    by (simp only: l)
  show "reachable cfg env ((remove_worst ?s)\<lparr>live_points := replicate n p @ [q]\<rparr>)"
    by (rule reachable_step [OF r s])
qed

subsection \<open>The claims about the sampler\<close>

text \<open>
  Claim C7. In every state of a run in which a threshold \<open>L*\<close> exists (a point has been
  removed), every member of the live set has a log-likelihood of at least \<open>L*\<close>, the
  log-likelihood of the most recently removed point. While the initial population is
  drawn no threshold exists yet.
\<close>

theorem live_points_above_threshold:
  assumes "reachable cfg env s"
  shows "(phase s = INITIALIZING \<longrightarrow> threshold s = None) \<and>
         (\<forall>L. threshold s = Some L \<longrightarrow>
            (\<forall>p \<in> set (live_points s). L \<le> point_log_likelihood p))"
  using reachable_invariant [OF assms] by (simp add: threshold_def)

theorem live_points_above_threshold_witness:
  "let p = \<lparr>unit_coords = [0, 0, 0, 0],
                physical_coords = [- 10, 1 / 100, 1, 0], point_log_likelihood = 1\<rparr>;
       q = \<lparr>unit_coords = [1, 1, 1, 1],
                physical_coords = [10, 100, 100, 1], point_log_likelihood = 2\<rparr>;
       s = init_state\<lparr>live_points := replicate 400 p, phase := SAMPLING\<rparr>;
       s' = (remove_worst s)\<lparr>live_points := replicate 399 p @ [q]\<rparr>
   in threshold s' = Some 1 \<and>
      list_all (\<lambda>x. 1 \<le> point_log_likelihood x) (live_points s')"
proof -
  define env where "env = \<lparr>ess = \<lambda>s. 0, calls_made = \<lambda>s. 0,
    cancel_requested = \<lambda>s. False, unrecoverable = \<lambda>s. False\<rparr>"
  define p where "p = \<lparr>unit_coords = [0, 0, 0, 0],
          physical_coords = [- 10, 1 / 100, 1, 0], point_log_likelihood = 1\<rparr>"
  define q where "q = \<lparr>unit_coords = [1, 1, 1, 1],
          physical_coords = [10, 100, 100, 1], point_log_likelihood = 2\<rparr>"
  define s where "s = init_state\<lparr>live_points := replicate 400 p, phase := SAMPLING\<rparr>"
  define s' where "s' = (remove_worst s)\<lparr>live_points := replicate 399 p @ [q]\<rparr>"
  have n400: "(400::nat) = Suc 399" by simp
  have m: "min_num_live_points notebook_config = Suc 399" by (simp add: notebook_config_def)
  have pq: "point_log_likelihood p < point_log_likelihood q" by (simp add: p_def q_def)
  have r: "reachable notebook_config env s'"
    unfolding s'_def s_def n400
    by (rule first_removal(2) [OF m pq]) (simp add: stopping_rule_def env_def)
  have t: "threshold s' = Some 1"
    unfolding s'_def by (simp add: threshold_remove_worst) (simp add: s_def worst_replicate p_def)
  from live_points_above_threshold [OF r] t
  have "\<forall>x \<in> set (live_points s'). 1 \<le> point_log_likelihood x" by blast
  then have "list_all (\<lambda>x. 1 \<le> point_log_likelihood x) (live_points s')"
    by (simp add: list_all_iff)
  with t have "threshold s' = Some 1 \<and>
      list_all (\<lambda>x. 1 \<le> point_log_likelihood x) (live_points s')" by simp
  then show ?thesis unfolding s'_def s_def p_def q_def Let_def .
qed

text \<open>
  Claim C5. \<open>log_volume_estimate\<close> strictly decreases at every dead-point removal. A
  transition either records no dead point and leaves the estimate as it is, or it records
  one, the live set is not empty, and the estimate drops by \<open>1/N_live\<close> for the size of the
  live set at that step: the prior volume is multiplied by \<open>exp(-1/N_live)\<close>, a factor
  strictly below 1.
\<close>

theorem log_volume_strictly_decreases:
  assumes "step cfg env s s'"
  shows "(dead_points s' = dead_points s \<and> log_volume_estimate s' = log_volume_estimate s) \<or>
         (length (dead_points s') = Suc (length (dead_points s)) \<and>
          0 < length (live_points s) \<and>
          log_volume_estimate s' = log_volume_estimate s - 1 / real (length (live_points s)) \<and>
          log_volume_estimate s' < log_volume_estimate s \<and>
          exp (log_volume_estimate s') =
            exp (- 1 / real (length (live_points s))) * exp (log_volume_estimate s) \<and>
          exp (- 1 / real (length (live_points s))) < 1)"
  using assms
proof (induction rule: step.induct)
  case (sample s q)
  let ?n = "real (length (live_points s))"
  have n: "0 < length (live_points s)" using sample(2) by simp
  then have pos: "0 < 1 / ?n" by simp
  have e: "exp (log_volume_estimate s - 1 / ?n) = exp (- 1 / ?n) * exp (log_volume_estimate s)"
    by (simp add: exp_diff exp_minus divide_inverse mult.commute)
  have f: "exp (- 1 / ?n) < 1" using pos by simp
  show ?case
    using n pos e f by (simp add: volume_remove_worst dead_remove_worst)
qed simp_all

theorem log_volume_strictly_decreases_witness:
  "let p = \<lparr>unit_coords = [0, 0, 0, 0],
                physical_coords = [- 10, 1 / 100, 1, 0], point_log_likelihood = 1\<rparr>;
       q = \<lparr>unit_coords = [1, 1, 1, 1],
                physical_coords = [10, 100, 100, 1], point_log_likelihood = 2\<rparr>;
       s = init_state\<lparr>live_points := replicate 400 p, phase := SAMPLING\<rparr>;
       s' = (remove_worst s)\<lparr>live_points := replicate 399 p @ [q]\<rparr>
   in log_volume_estimate s' = - 1 / 400 \<and>
      log_volume_estimate s' < log_volume_estimate s"
proof -
  define env where "env = \<lparr>ess = \<lambda>s. 0, calls_made = \<lambda>s. 0,
    cancel_requested = \<lambda>s. False, unrecoverable = \<lambda>s. False\<rparr>"
  define p where "p = \<lparr>unit_coords = [0, 0, 0, 0],
          physical_coords = [- 10, 1 / 100, 1, 0], point_log_likelihood = 1\<rparr>"
  define q where "q = \<lparr>unit_coords = [1, 1, 1, 1],
          physical_coords = [10, 100, 100, 1], point_log_likelihood = 2\<rparr>"
  define s where "s = init_state\<lparr>live_points := replicate 400 p, phase := SAMPLING\<rparr>"
  define s' where "s' = (remove_worst s)\<lparr>live_points := replicate 399 p @ [q]\<rparr>"
  have n400: "(400::nat) = Suc 399" by simp
  have m: "min_num_live_points notebook_config = Suc 399" by (simp add: notebook_config_def)
  have pq: "point_log_likelihood p < point_log_likelihood q" by (simp add: p_def q_def)
  have st: "step notebook_config env s s'"
    unfolding s'_def s_def n400
    by (rule first_removal(1) [OF m pq]) (simp add: stopping_rule_def env_def)
  have d: "dead_points s' \<noteq> dead_points s" by (simp add: s'_def remove_worst_def Let_def)
  have l: "real (length (live_points s)) = 400" by (simp add: s_def)
  from log_volume_strictly_decreases [OF st] d
  have "log_volume_estimate s' = log_volume_estimate s - 1 / real (length (live_points s))"
    and "log_volume_estimate s' < log_volume_estimate s" by auto
  moreover have "log_volume_estimate s = 0" by (simp add: s_def init_state_def)
  ultimately have "log_volume_estimate s' = - 1 / 400 \<and>
      log_volume_estimate s' < log_volume_estimate s"
    unfolding l by simp
  then show ?thesis unfolding s'_def s_def p_def q_def Let_def .
qed



end
